theory Spec2Isabelle
  imports Complex_Main "HOL-Library.Word"
begin

section \<open>Data model of stockMarket.cpp\<close>

text \<open>
  The C++ \<open>int\<close> of the source is a 32-bit two's complement integer. The counters, the
  order ids and the quantities are kept as 32-bit words: \<open>fetch_add\<close> and
  \<open>fetch_sub\<close> on \<open>std::atomic<int>\<close> wrap around, and \<open>sint\<close> reads a word the way
  the signed comparisons of the source do. Array indices, loop variables and the ticker
  are mathematical integers: every access checks them against the array bounds, and
  no arithmetic on them can leave the 32-bit range before such a check fails.
\<close>

type_synonym int32 = "32 word"

definition NUM_TICKERS :: int where
  "NUM_TICKERS = 1024"

definition MAX_ORDERS_PER_SIDE :: int where
  "MAX_ORDERS_PER_SIDE = 1000"

datatype OrderType = BUY | SELL

text \<open>
  A \<open>double\<close> is only stored, copied and compared by the source. The model keeps the
  values that compare differently: not-a-number, the two infinities and the finite
  values (the finite doubles are a subset of the reals, with both zeros equal).
\<close>

datatype double = NaN | NegInf | Finite real | PosInf

text \<open>The comparison \<open>a < b\<close> of IEEE 754: false as soon as one side is not a number.\<close>

fun dlt :: "double \<Rightarrow> double \<Rightarrow> bool" where
  "dlt NaN _ = False"
| "dlt _ NaN = False"
| "dlt (Finite a) (Finite b) = (a < b)"
| "dlt NegInf NegInf = False"
| "dlt NegInf _ = True"
| "dlt _ NegInf = False"
| "dlt PosInf _ = False"
| "dlt _ PosInf = True"

text \<open>\<open>a > b\<close> and \<open>a >= b\<close>.\<close>

definition dgt :: "double \<Rightarrow> double \<Rightarrow> bool" where
  "dgt a b = dlt b a"

definition dge :: "double \<Rightarrow> double \<Rightarrow> bool" where
  "dge a b = (dlt b a \<or> (a = b \<and> a \<noteq> NaN))"

text \<open>
  One side of one book: four arrays of \<open>MAX_ORDERS_PER_SIDE\<close> cells and the insertion
  counter. An array is a function of the index; the operations below check every index
  against the bounds before they use it, and an access outside them is the error
  \<open>OutOfBounds\<close> (undefined behaviour in C++).
\<close>

record OrderSide =
  orderId :: "int \<Rightarrow> int32"
  quantity :: "int \<Rightarrow> int32"
  price :: "int \<Rightarrow> double"
  active :: "int \<Rightarrow> bool"
  count :: int32

record OrderBook =
  buy :: OrderSide
  sell :: OrderSide

text \<open>The global state: the books of all tickers and the order id generator.\<close>

record Market =
  orderBooks :: "int \<Rightarrow> OrderBook"
  globalOrderId :: int32

datatype error = OutOfBounds

text \<open>
  What the source prints: the two "book full" messages of \<open>addOrder\<close> with their ticker,
  and the trade line of \<open>matchOrder\<close> with ticker, quantity, price, buy order id and
  sell order id.
\<close>

datatype event =
    BuyBookFull int
  | SellBookFull int
  | TradeExecuted int int32 double int32 int32

text \<open>
  The objects have static storage, so they start zeroed; the constructor of
  \<open>OrderSide\<close> then clears \<open>active\<close>, \<open>quantity\<close> and \<open>count\<close>.
\<close>

definition emptySide :: OrderSide where
  "emptySide = \<lparr> orderId = (\<lambda>_. 0), quantity = (\<lambda>_. 0), price = (\<lambda>_. Finite 0),
                 active = (\<lambda>_. False), count = 0 \<rparr>"

definition initMarket :: Market where
  "initMarket = \<lparr> orderBooks = (\<lambda>_. \<lparr> buy = emptySide, sell = emptySide \<rparr>),
                  globalOrderId = 0 \<rparr>"

definition in_bounds :: "int \<Rightarrow> bool" where
  "in_bounds i = (0 \<le> i \<and> i < MAX_ORDERS_PER_SIDE)"

definition valid_ticker :: "int \<Rightarrow> bool" where
  "valid_ticker t = (0 \<le> t \<and> t < NUM_TICKERS)"

section \<open>addOrder\<close>

text \<open>
  The body that both branches of \<open>addOrder\<close> run on their side: \<open>count.fetch_add(1)\<close>
  gives the index, and below the capacity the four stores follow. The result says
  whether the order was stored (\<open>True\<close>) or the "book full" branch was taken.
  A negative index passes the test \<open>idx < MAX_ORDERS_PER_SIDE\<close> and the stores then
  fall outside the arrays.
\<close>

definition storeOrder :: "OrderSide \<Rightarrow> int32 \<Rightarrow> int32 \<Rightarrow> double \<Rightarrow> error + (OrderSide \<times> bool)" where
  "storeOrder sd oid qty p =
     (let idx = sint (count sd);
          sd1 = sd\<lparr>count := count sd + 1\<rparr>
      in if idx < MAX_ORDERS_PER_SIDE then
           (if \<not> in_bounds idx then Inl OutOfBounds
            else Inr (sd1\<lparr>orderId := (orderId sd1)(idx := oid),
                         quantity := (quantity sd1)(idx := qty),
                         price := (price sd1)(idx := p),
                         active := (active sd1)(idx := True)\<rparr>, True))
         else Inr (sd1, False))"

definition addOrder :: "OrderType \<Rightarrow> int \<Rightarrow> int32 \<Rightarrow> double \<Rightarrow> Market \<Rightarrow> error + (Market \<times> event option)" where
  "addOrder type ticker qty p m =
     (let oid = globalOrderId m;
          m1 = m\<lparr>globalOrderId := globalOrderId m + 1\<rparr>
      in if \<not> valid_ticker ticker then Inl OutOfBounds
         else
           let ob = orderBooks m1 ticker in
           (case type of
              BUY \<Rightarrow>
                (case storeOrder (buy ob) oid qty p of
                   Inl e \<Rightarrow> Inl e
                 | Inr (sd, stored) \<Rightarrow>
                     Inr (m1\<lparr>orderBooks := (orderBooks m1)(ticker := ob\<lparr>buy := sd\<rparr>)\<rparr>,
                          if stored then None else Some (BuyBookFull ticker)))
            | SELL \<Rightarrow>
                (case storeOrder (sell ob) oid qty p of
                   Inl e \<Rightarrow> Inl e
                 | Inr (sd, stored) \<Rightarrow>
                     Inr (m1\<lparr>orderBooks := (orderBooks m1)(ticker := ob\<lparr>sell := sd\<rparr>)\<rparr>,
                          if stored then None else Some (SellBookFull ticker)))))"

section \<open>matchOrder\<close>

text \<open>
  The two scans. Each reads \<open>active[i]\<close>, \<open>quantity[i]\<close> and \<open>price[i]\<close> for
  \<open>i\<close> from 0 up to the counter value loaded at the start, so a counter above the
  capacity makes the loop read outside the arrays.
\<close>

function scanBuy :: "OrderSide \<Rightarrow> int \<Rightarrow> int \<Rightarrow> int \<Rightarrow> double \<Rightarrow> error + (int \<times> double)" where
  "scanBuy sd buyCount i bestBuyIndex bestBuyPrice =
     (if i < buyCount then
        (if \<not> in_bounds i then Inl OutOfBounds
         else if active sd i \<and> 0 < sint (quantity sd i) \<and> dgt (price sd i) bestBuyPrice
              then scanBuy sd buyCount (i + 1) i (price sd i)
              else scanBuy sd buyCount (i + 1) bestBuyIndex bestBuyPrice)
      else Inr (bestBuyIndex, bestBuyPrice))"
  by pat_completeness auto
termination
  by (relation "measure (\<lambda>(sd, buyCount, i, b, p). nat (buyCount - i))") auto

function scanSell :: "OrderSide \<Rightarrow> int \<Rightarrow> int \<Rightarrow> int \<Rightarrow> double \<Rightarrow> error + (int \<times> double)" where
  "scanSell sd sellCount i bestSellIndex bestSellPrice =
     (if i < sellCount then
        (if \<not> in_bounds i then Inl OutOfBounds
         else if active sd i \<and> 0 < sint (quantity sd i) \<and> dlt (price sd i) bestSellPrice
              then scanSell sd sellCount (i + 1) i (price sd i)
              else scanSell sd sellCount (i + 1) bestSellIndex bestSellPrice)
      else Inr (bestSellIndex, bestSellPrice))"
  by pat_completeness auto
termination
  by (relation "measure (\<lambda>(sd, sellCount, i, b, p). nat (sellCount - i))") auto

declare scanBuy.simps [simp del]
declare scanSell.simps [simp del]

text \<open>The scans as \<open>matchOrder\<close> starts them, with the sentinels \<open>-1.0\<close> and \<open>1e9\<close>.\<close>

definition selectBuy :: "OrderSide \<Rightarrow> error + (int \<times> double)" where
  "selectBuy sd = scanBuy sd (sint (count sd)) 0 (- 1) (Finite (- 1))"

definition selectSell :: "OrderSide \<Rightarrow> error + (int \<times> double)" where
  "selectSell sd = scanSell sd (sint (count sd)) 0 (- 1) (Finite 1000000000)"

text \<open>\<open>std::min\<close> on two \<open>int\<close>: the second argument when it is smaller, else the first.\<close>

definition smin :: "int32 \<Rightarrow> int32 \<Rightarrow> int32" where
  "smin a b = (if sint b < sint a then b else a)"

text \<open>
  The trade on one side: \<open>fetch_sub\<close> of the traded quantity at the selected index, then
  the deactivation when the quantity read back is zero.
\<close>

definition fillOrder :: "OrderSide \<Rightarrow> int \<Rightarrow> int32 \<Rightarrow> OrderSide" where
  "fillOrder sd idx tradeQuantity =
     (let sd1 = sd\<lparr>quantity := (quantity sd)(idx := quantity sd idx - tradeQuantity)\<rparr>
      in if quantity sd1 idx = 0 then sd1\<lparr>active := (active sd1)(idx := False)\<rparr> else sd1)"

definition matchOrder :: "int \<Rightarrow> Market \<Rightarrow> error + (Market \<times> event option)" where
  "matchOrder ticker m =
     (if \<not> valid_ticker ticker then Inl OutOfBounds
      else
        let ob = orderBooks m ticker in
        (case selectBuy (buy ob) of
           Inl e \<Rightarrow> Inl e
         | Inr (bestBuyIndex, bestBuyPrice) \<Rightarrow>
             (case selectSell (sell ob) of
                Inl e \<Rightarrow> Inl e
              | Inr (bestSellIndex, bestSellPrice) \<Rightarrow>
                  if bestBuyIndex \<noteq> - 1 \<and> bestSellIndex \<noteq> - 1 \<and> dge bestBuyPrice bestSellPrice
                  then
                    let tradeQuantity = smin (quantity (buy ob) bestBuyIndex)
                                             (quantity (sell ob) bestSellIndex);
                        ob1 = \<lparr> buy = fillOrder (buy ob) bestBuyIndex tradeQuantity,
                                sell = fillOrder (sell ob) bestSellIndex tradeQuantity \<rparr>
                    in Inr (m\<lparr>orderBooks := (orderBooks m)(ticker := ob1)\<rparr>,
                            Some (TradeExecuted ticker tradeQuantity bestSellPrice
                                    (orderId (buy ob) bestBuyIndex)
                                    (orderId (sell ob) bestSellIndex)))
                  else Inr (m, None))))"

section \<open>Sequences of operations\<close>

datatype op = AddOrder OrderType int int32 double | MatchOrder int

fun step :: "op \<Rightarrow> Market \<Rightarrow> error + (Market \<times> event option)" where
  "step (AddOrder type ticker qty p) m = addOrder type ticker qty p m"
| "step (MatchOrder ticker) m = matchOrder ticker m"

fun run :: "op list \<Rightarrow> Market \<Rightarrow> error + (Market \<times> event list)" where
  "run [] m = Inr (m, [])"
| "run (x # xs) m =
     (case step x m of
        Inl e \<Rightarrow> Inl e
      | Inr (m1, ev) \<Rightarrow>
          (case run xs m1 of
             Inl e \<Rightarrow> Inl e
           | Inr (m2, evs) \<Rightarrow> Inr (m2, (case ev of None \<Rightarrow> [] | Some e \<Rightarrow> [e]) @ evs)))"

text \<open>The state and the printed lines of a sequence; an undefined run leaves the state.\<close>

definition stateAfter :: "op list \<Rightarrow> Market \<Rightarrow> Market" where
  "stateAfter ops m = (case run ops m of Inl e \<Rightarrow> m | Inr (m1, evs) \<Rightarrow> m1)"

definition eventsOf :: "op list \<Rightarrow> Market \<Rightarrow> event list" where
  "eventsOf ops m = (case run ops m of Inl e \<Rightarrow> [] | Inr (m1, evs) \<Rightarrow> evs)"

section \<open>Vocabulary of the properties\<close>

text \<open>The side of a book that an order type goes to.\<close>

fun side :: "OrderType \<Rightarrow> OrderBook \<Rightarrow> OrderSide" where
  "side BUY ob = buy ob"
| "side SELL ob = sell ob"

text \<open>
  A slot that the scans consider: active with a positive quantity; a candidate is such a
  slot below the counter.
\<close>

definition live :: "OrderSide \<Rightarrow> int \<Rightarrow> bool" where
  "live sd i = (active sd i \<and> 0 < sint (quantity sd i))"

definition candidate :: "OrderSide \<Rightarrow> int \<Rightarrow> bool" where
  "candidate sd i = (0 \<le> i \<and> i < sint (count sd) \<and> live sd i)"

text \<open>
  The best bid is a candidate that no candidate exceeds in price, the best ask a
  candidate that no candidate undercuts.
\<close>

definition isBestBid :: "OrderSide \<Rightarrow> int \<Rightarrow> bool" where
  "isBestBid sd i = (candidate sd i \<and> (\<forall>k. candidate sd k \<longrightarrow> \<not> dgt (price sd k) (price sd i)))"

definition isBestAsk :: "OrderSide \<Rightarrow> int \<Rightarrow> bool" where
  "isBestAsk sd i = (candidate sd i \<and> (\<forall>k. candidate sd k \<longrightarrow> \<not> dlt (price sd k) (price sd i)))"

text \<open>The first slot that holds a given price among the candidates.\<close>

definition firstAtPrice :: "OrderSide \<Rightarrow> int \<Rightarrow> bool" where
  "firstAtPrice sd i = (\<forall>k. candidate sd k \<and> k < i \<longrightarrow> price sd k \<noteq> price sd i)"

text \<open>
  The invariants of the two loops after \<open>i\<close> iterations: the running best is the sentinel
  or the price of a live slot seen so far, no live slot seen so far beats it, and every
  live slot before the selected one is strictly worse (or not a number).
\<close>

definition buyInv :: "OrderSide \<Rightarrow> int \<Rightarrow> int \<Rightarrow> double \<Rightarrow> bool" where
  "buyInv sd i bi bp =
     (((bi = - 1 \<and> bp = Finite (- 1)) \<or>
       (0 \<le> bi \<and> bi < i \<and> live sd bi \<and> price sd bi = bp \<and> dgt bp (Finite (- 1)))) \<and>
      (\<forall>j. 0 \<le> j \<and> j < i \<and> live sd j \<longrightarrow> \<not> dgt (price sd j) bp) \<and>
      (\<forall>j. 0 \<le> j \<and> j < bi \<and> live sd j \<longrightarrow> \<not> dge (price sd j) bp))"

definition sellInv :: "OrderSide \<Rightarrow> int \<Rightarrow> int \<Rightarrow> double \<Rightarrow> bool" where
  "sellInv sd i bi bp =
     (((bi = - 1 \<and> bp = Finite 1000000000) \<or>
       (0 \<le> bi \<and> bi < i \<and> live sd bi \<and> price sd bi = bp \<and> dlt bp (Finite 1000000000))) \<and>
      (\<forall>j. 0 \<le> j \<and> j < i \<and> live sd j \<longrightarrow> \<not> dlt (price sd j) bp) \<and>
      (\<forall>j. 0 \<le> j \<and> j < bi \<and> live sd j \<longrightarrow> \<not> dge bp (price sd j)))"

text \<open>
  A slot is published once the counter, read as the number of reservations made so far,
  has passed its index.
\<close>

definition published :: "OrderSide \<Rightarrow> int \<Rightarrow> bool" where
  "published sd i = (in_bounds i \<and> i < uint (count sd))"

text \<open>No slot is active at or above the counter.\<close>

definition sideOk :: "OrderSide \<Rightarrow> bool" where
  "sideOk sd = (\<forall>i. in_bounds i \<and> active sd i \<longrightarrow> i < uint (count sd))"

definition marketOk :: "Market \<Rightarrow> bool" where
  "marketOk m = (\<forall>t. sideOk (buy (orderBooks m t)) \<and> sideOk (sell (orderBooks m t)))"

text \<open>The accounting of one ticker: quantity left in active orders, submitted, traded.\<close>

definition remaining :: "OrderSide \<Rightarrow> int" where
  "remaining sd = (\<Sum>i\<in>{0..<MAX_ORDERS_PER_SIDE}. if active sd i then sint (quantity sd i) else 0)"

definition remainingQty :: "int \<Rightarrow> Market \<Rightarrow> int" where
  "remainingQty t m = remaining (buy (orderBooks m t)) + remaining (sell (orderBooks m t))"

fun submittedQty :: "int \<Rightarrow> op list \<Rightarrow> int" where
  "submittedQty t [] = 0"
| "submittedQty t (AddOrder type ticker qty p # xs) =
     (if ticker = t then sint qty else 0) + submittedQty t xs"
| "submittedQty t (MatchOrder ticker # xs) = submittedQty t xs"

fun tradedQty :: "int \<Rightarrow> event list \<Rightarrow> int" where
  "tradedQty t [] = 0"
| "tradedQty t (TradeExecuted ticker q p bid sid # es) =
     (if ticker = t then sint q else 0) + tradedQty t es"
| "tradedQty t (e # es) = tradedQty t es"

fun bookFullCount :: "int \<Rightarrow> event list \<Rightarrow> nat" where
  "bookFullCount t [] = 0"
| "bookFullCount t (BuyBookFull ticker # es) = (if ticker = t then 1 else 0) + bookFullCount t es"
| "bookFullCount t (SellBookFull ticker # es) = (if ticker = t then 1 else 0) + bookFullCount t es"
| "bookFullCount t (e # es) = bookFullCount t es"

text \<open>Sequences made of submissions only, and the submissions that go to one side.\<close>

fun isSubmission :: "op \<Rightarrow> bool" where
  "isSubmission (AddOrder type ticker qty p) = valid_ticker ticker"
| "isSubmission (MatchOrder ticker) = False"

fun submitsTo :: "OrderType \<Rightarrow> int \<Rightarrow> op \<Rightarrow> bool" where
  "submitsTo ty t (AddOrder type ticker qty p) = (type = ty \<and> ticker = t)"
| "submitsTo ty t (MatchOrder ticker) = False"

fun nonNegative :: "op \<Rightarrow> bool" where
  "nonNegative (AddOrder type ticker qty p) = (0 \<le> sint qty)"
| "nonNegative (MatchOrder ticker) = True"

text \<open>
  Writing a side back into its book, and the "book full" line of a side, as the two
  branches of \<open>addOrder\<close> do.
\<close>

fun setSide :: "OrderType \<Rightarrow> OrderSide \<Rightarrow> OrderBook \<Rightarrow> OrderBook" where
  "setSide BUY sd ob = ob\<lparr>buy := sd\<rparr>"
| "setSide SELL sd ob = ob\<lparr>sell := sd\<rparr>"

fun bookFull :: "OrderType \<Rightarrow> int \<Rightarrow> event" where
  "bookFull BUY t = BuyBookFull t"
| "bookFull SELL t = SellBookFull t"

text \<open>Every slot below the counter is active: the shape of a side that was only added to.\<close>

definition allActive :: "OrderSide \<Rightarrow> bool" where
  "allActive sd = (\<forall>i. in_bounds i \<and> i < uint (count sd) \<longrightarrow> active sd i)"

text \<open>A run of \<open>n\<close> equal buy submissions to ticker 0.\<close>

definition floodOps :: "nat \<Rightarrow> op list" where
  "floodOps n = replicate n (AddOrder BUY 0 1 (Finite 10))"

section \<open>Example books\<close>

text \<open>
  The two fill scenarios of the specification (a crossing pair of equal size, a crossing
  pair where the buy order is smaller) and books at the edges of the scans: pairs priced
  at or above the sell sentinel, and sides that hold the same price twice.
\<close>

definition crossedBook :: Market where
  "crossedBook =
     stateAfter [AddOrder BUY 0 50 (Finite 100), AddOrder SELL 0 50 (Finite 90)] initMarket"

definition partialBook :: Market where
  "partialBook =
     stateAfter [AddOrder BUY 0 30 (Finite 100), AddOrder SELL 0 50 (Finite 90)] initMarket"

definition highAskBook :: Market where
  "highAskBook =
     stateAfter [AddOrder BUY 0 10 (Finite 3000000000),
                 AddOrder SELL 0 10 (Finite 2000000000)] initMarket"

definition highBidBook :: Market where
  "highBidBook =
     stateAfter [AddOrder BUY 0 7 (Finite 5000000000),
                 AddOrder SELL 0 7 (Finite 1000000000)] initMarket"

definition tiedBook :: Market where
  "tiedBook =
     stateAfter [AddOrder BUY 0 7 (Finite 99), AddOrder BUY 0 10 (Finite 100),
                 AddOrder BUY 0 5 (Finite 100), AddOrder SELL 0 4 (Finite 50),
                 AddOrder SELL 0 6 (Finite 50)] initMarket"

definition tiedHighAskBook :: Market where
  "tiedHighAskBook =
     stateAfter [AddOrder SELL 0 10 (Finite 2000000000),
                 AddOrder SELL 0 5 (Finite 2000000000)] initMarket"

text \<open>
  Books with an overfull sell side: 1001 equal sell submissions of quantity 1 to ticker
  0, of which the last is rejected and leaves the counter at 1001, then one buy order at
  100. The two prices used below are the doubles that follow 90 and 1e9; their low 32
  bits are 1.
\<close>

definition askFlood :: "real \<Rightarrow> nat \<Rightarrow> op list" where
  "askFlood p n = replicate n (AddOrder SELL 0 1 (Finite p))"

definition overfullOps :: "real \<Rightarrow> int32 \<Rightarrow> op list" where
  "overfullOps p q = askFlood p 1001 @ [AddOrder BUY 0 q (Finite 100)]"

definition overfullBook :: "real \<Rightarrow> int32 \<Rightarrow> Market" where
  "overfullBook p q = stateAfter (overfullOps p q) initMarket"

text \<open>An operation that submits no sell order at another price than \<open>p\<close>.\<close>

fun sellsAt :: "real \<Rightarrow> op \<Rightarrow> bool" where
  "sellsAt p (AddOrder ty t q pr) = (ty = BUY \<or> pr = Finite p)"
| "sellsAt p (MatchOrder t) = True"

section \<open>Comparison of doubles\<close>

lemma dlt_irrefl [simp]: "\<not> dlt a a"
  by (cases a) simp_all

lemma dlt_NaN_right [simp]: "\<not> dlt a NaN"
  by (cases a) simp_all

lemma dlt_trans: "dlt a b \<Longrightarrow> dlt b c \<Longrightarrow> dlt a c"
  by (cases a; cases b; cases c) simp_all

lemma dlt_total: "a \<noteq> NaN \<Longrightarrow> b \<noteq> NaN \<Longrightarrow> dlt a b \<or> a = b \<or> dlt b a"
  by (cases a; cases b) auto

lemma dlt_not_NaN: "dlt a b \<Longrightarrow> a \<noteq> NaN \<and> b \<noteq> NaN"
  by (cases a; cases b) simp_all

lemma dge_dlt_trans: "dge a b \<Longrightarrow> dlt c b \<Longrightarrow> dlt c a"
  unfolding dge_def by (auto intro: dlt_trans)

lemma dlt_dge_trans: "dlt a b \<Longrightarrow> dge c b \<Longrightarrow> dlt a c"
  unfolding dge_def by (auto intro: dlt_trans)

lemma dge_dlt_trans2: "dge a b \<Longrightarrow> dlt a c \<Longrightarrow> dlt b c"
  unfolding dge_def by (auto intro: dlt_trans)

lemma dge_trans: "dge a b \<Longrightarrow> dge b c \<Longrightarrow> dge a c"
  unfolding dge_def by (auto intro: dlt_trans)

lemma dge_refl: "a \<noteq> NaN \<Longrightarrow> dge a a"
  by (simp add: dge_def)

lemma not_dlt_dge: "a \<noteq> NaN \<Longrightarrow> b \<noteq> NaN \<Longrightarrow> \<not> dlt a b \<Longrightarrow> dge a b"
  unfolding dge_def using dlt_total [of a b] by auto

lemma dge_not_dlt: "dge a b \<Longrightarrow> \<not> dlt a b"
  unfolding dge_def by (cases a; cases b) auto

section \<open>The scan of the buy side\<close>

lemma buyInv_start: "buyInv sd 0 (- 1) (Finite (- 1))"
  by (auto simp: buyInv_def)

lemma buyInv_take:
  assumes "buyInv sd i bi bp" and "0 \<le> i" and "live sd i" and "dgt (price sd i) bp"
  shows "buyInv sd (i + 1) i (price sd i)"
proof -
  have gt: "dlt bp (price sd i)" using assms(4) by (simp add: dgt_def)
  have a: "dgt (price sd i) (Finite (- 1))"
    using assms(1) gt unfolding buyInv_def dgt_def by (auto intro: dlt_trans)
  have b: "\<not> dgt (price sd j) (price sd i)" if "0 \<le> j" "j < i + 1" "live sd j" for j
  proof (cases "j = i")
    case True then show ?thesis by (simp add: dgt_def)
  next
    case False
    then have "\<not> dgt (price sd j) bp" using assms(1) that unfolding buyInv_def by auto
    then show ?thesis using gt unfolding dgt_def by (auto dest: dlt_trans)
  qed
  have c: "\<not> dge (price sd j) (price sd i)" if "0 \<le> j" "j < i" "live sd j" for j
  proof -
    have "\<not> dgt (price sd j) bp" using assms(1) that unfolding buyInv_def by auto
    then show ?thesis using gt unfolding dgt_def by (auto dest: dlt_dge_trans)
  qed
  show ?thesis unfolding buyInv_def using assms(2,3) a b c by auto
qed

lemma buyInv_skip:
  assumes "buyInv sd i bi bp" and "\<not> (live sd i \<and> dgt (price sd i) bp)"
  shows "buyInv sd (i + 1) bi bp"
proof -
  have "\<not> dgt (price sd j) bp" if "0 \<le> j" "j < i + 1" "live sd j" for j
  proof (cases "j = i")
    case True then show ?thesis using assms(2) that by simp
  next
    case False then show ?thesis using assms(1) that unfolding buyInv_def by auto
  qed
  then show ?thesis using assms(1) unfolding buyInv_def by auto
qed

lemma scanBuy_inv:
  "scanBuy sd n i bi bp = Inr (bi', bp') \<Longrightarrow> 0 \<le> i \<Longrightarrow> buyInv sd i bi bp \<Longrightarrow>
   buyInv sd (max i n) bi' bp'"
proof (induction sd n i bi bp rule: scanBuy.induct)
  case (1 sd n i bi bp)
  show ?case
  proof (cases "i < n")
    case False
    then show ?thesis using "1.prems" by (simp add: scanBuy.simps [of sd n i bi bp] max_def)
  next
    case lt: True
    then have ib: "in_bounds i"
      using "1.prems"(1) by (simp add: scanBuy.simps [of sd n i bi bp] split: if_splits)
    have m: "max (i + 1) n = max i n" using lt by simp
    show ?thesis
    proof (cases "active sd i \<and> 0 < sint (quantity sd i) \<and> dgt (price sd i) bp")
      case True
      then have "scanBuy sd n (i + 1) i (price sd i) = Inr (bi', bp')"
        using "1.prems"(1) lt ib by (simp add: scanBuy.simps [of sd n i bi bp])
      moreover have "buyInv sd (i + 1) i (price sd i)"
        using buyInv_take [OF "1.prems"(3) "1.prems"(2)] True by (simp add: live_def)
      ultimately show ?thesis
        using "1.IH"(1) [OF lt _ True] ib "1.prems"(2) m by simp
    next
      case False
      then have "scanBuy sd n (i + 1) bi bp = Inr (bi', bp')"
        using "1.prems"(1) lt ib by (auto simp add: scanBuy.simps [of sd n i bi bp])
      moreover have "buyInv sd (i + 1) bi bp"
        using buyInv_skip [OF "1.prems"(3)] False by (simp add: live_def)
      ultimately show ?thesis
        using "1.IH"(2) [OF lt _ False] ib "1.prems"(2) m by simp
    qed
  qed
qed

lemma scanBuy_defined:
  "n \<le> MAX_ORDERS_PER_SIDE \<Longrightarrow> 0 \<le> i \<Longrightarrow> \<exists>r. scanBuy sd n i bi bp = Inr r"
proof (induction sd n i bi bp rule: scanBuy.induct)
  case (1 sd n i bi bp)
  show ?case
  proof (cases "i < n")
    case False
    then show ?thesis by (simp add: scanBuy.simps [of sd n i bi bp])
  next
    case lt: True
    then have ib: "in_bounds i" using "1.prems" by (simp add: in_bounds_def)
    show ?thesis
    proof (cases "active sd i \<and> 0 < sint (quantity sd i) \<and> dgt (price sd i) bp")
      case True
      then show ?thesis
        using "1.IH"(1) [OF lt _ True] ib "1.prems" lt
        by (simp add: scanBuy.simps [of sd n i bi bp])
    next
      case False
      then show ?thesis
        using "1.IH"(2) [OF lt _ False] ib "1.prems" lt
        by (auto simp add: scanBuy.simps [of sd n i bi bp])
    qed
  qed
qed

lemma scanBuy_overflow:
  "MAX_ORDERS_PER_SIDE < n \<Longrightarrow> 0 \<le> i \<Longrightarrow> i \<le> MAX_ORDERS_PER_SIDE \<Longrightarrow>
   scanBuy sd n i bi bp = Inl OutOfBounds"
proof (induction sd n i bi bp rule: scanBuy.induct)
  case (1 sd n i bi bp)
  have lt: "i < n" using "1.prems" by simp
  show ?case
  proof (cases "in_bounds i")
    case False
    then show ?thesis using lt by (simp add: scanBuy.simps [of sd n i bi bp])
  next
    case ib: True
    then have le: "i + 1 \<le> MAX_ORDERS_PER_SIDE" by (simp add: in_bounds_def)
    show ?thesis
    proof (cases "active sd i \<and> 0 < sint (quantity sd i) \<and> dgt (price sd i) bp")
      case True
      then show ?thesis
        using "1.IH"(1) [OF lt _ True] ib "1.prems" lt le
        by (simp add: scanBuy.simps [of sd n i bi bp])
    next
      case False
      then show ?thesis
        using "1.IH"(2) [OF lt _ False] ib "1.prems" lt le
        by (auto simp add: scanBuy.simps [of sd n i bi bp])
    qed
  qed
qed

section \<open>The scan of the sell side\<close>

lemma sellInv_start: "sellInv sd 0 (- 1) (Finite 1000000000)"
  by (auto simp: sellInv_def)

lemma sellInv_take:
  assumes "sellInv sd i bi bp" and "0 \<le> i" and "live sd i" and "dlt (price sd i) bp"
  shows "sellInv sd (i + 1) i (price sd i)"
proof -
  have a: "dlt (price sd i) (Finite 1000000000)"
    using assms(1,4) unfolding sellInv_def by (auto intro: dlt_trans)
  have b: "\<not> dlt (price sd j) (price sd i)" if "0 \<le> j" "j < i + 1" "live sd j" for j
  proof (cases "j = i")
    case True then show ?thesis by simp
  next
    case False
    then have "\<not> dlt (price sd j) bp" using assms(1) that unfolding sellInv_def by auto
    then show ?thesis using assms(4) by (auto dest: dlt_trans)
  qed
  have c: "\<not> dge (price sd i) (price sd j)" if "0 \<le> j" "j < i" "live sd j" for j
  proof -
    have "\<not> dlt (price sd j) bp" using assms(1) that unfolding sellInv_def by auto
    then show ?thesis using assms(4) by (auto dest: dge_dlt_trans2)
  qed
  show ?thesis unfolding sellInv_def using assms(2,3) a b c by auto
qed

lemma sellInv_skip:
  assumes "sellInv sd i bi bp" and "\<not> (live sd i \<and> dlt (price sd i) bp)"
  shows "sellInv sd (i + 1) bi bp"
proof -
  have "\<not> dlt (price sd j) bp" if "0 \<le> j" "j < i + 1" "live sd j" for j
  proof (cases "j = i")
    case True then show ?thesis using assms(2) that by simp
  next
    case False then show ?thesis using assms(1) that unfolding sellInv_def by auto
  qed
  then show ?thesis using assms(1) unfolding sellInv_def by auto
qed

lemma scanSell_inv:
  "scanSell sd n i bi bp = Inr (bi', bp') \<Longrightarrow> 0 \<le> i \<Longrightarrow> sellInv sd i bi bp \<Longrightarrow>
   sellInv sd (max i n) bi' bp'"
proof (induction sd n i bi bp rule: scanSell.induct)
  case (1 sd n i bi bp)
  show ?case
  proof (cases "i < n")
    case False
    then show ?thesis using "1.prems" by (simp add: scanSell.simps [of sd n i bi bp] max_def)
  next
    case lt: True
    then have ib: "in_bounds i"
      using "1.prems"(1) by (simp add: scanSell.simps [of sd n i bi bp] split: if_splits)
    have m: "max (i + 1) n = max i n" using lt by simp
    show ?thesis
    proof (cases "active sd i \<and> 0 < sint (quantity sd i) \<and> dlt (price sd i) bp")
      case True
      then have "scanSell sd n (i + 1) i (price sd i) = Inr (bi', bp')"
        using "1.prems"(1) lt ib by (simp add: scanSell.simps [of sd n i bi bp])
      moreover have "sellInv sd (i + 1) i (price sd i)"
        using sellInv_take [OF "1.prems"(3) "1.prems"(2)] True by (simp add: live_def)
      ultimately show ?thesis
        using "1.IH"(1) [OF lt _ True] ib "1.prems"(2) m by simp
    next
      case False
      then have "scanSell sd n (i + 1) bi bp = Inr (bi', bp')"
        using "1.prems"(1) lt ib by (auto simp add: scanSell.simps [of sd n i bi bp])
      moreover have "sellInv sd (i + 1) bi bp"
        using sellInv_skip [OF "1.prems"(3)] False by (simp add: live_def)
      ultimately show ?thesis
        using "1.IH"(2) [OF lt _ False] ib "1.prems"(2) m by simp
    qed
  qed
qed

lemma scanSell_defined:
  "n \<le> MAX_ORDERS_PER_SIDE \<Longrightarrow> 0 \<le> i \<Longrightarrow> \<exists>r. scanSell sd n i bi bp = Inr r"
proof (induction sd n i bi bp rule: scanSell.induct)
  case (1 sd n i bi bp)
  show ?case
  proof (cases "i < n")
    case False
    then show ?thesis by (simp add: scanSell.simps [of sd n i bi bp])
  next
    case lt: True
    then have ib: "in_bounds i" using "1.prems" by (simp add: in_bounds_def)
    show ?thesis
    proof (cases "active sd i \<and> 0 < sint (quantity sd i) \<and> dlt (price sd i) bp")
      case True
      then show ?thesis
        using "1.IH"(1) [OF lt _ True] ib "1.prems" lt
        by (simp add: scanSell.simps [of sd n i bi bp])
    next
      case False
      then show ?thesis
        using "1.IH"(2) [OF lt _ False] ib "1.prems" lt
        by (auto simp add: scanSell.simps [of sd n i bi bp])
    qed
  qed
qed

lemma scanSell_overflow:
  "MAX_ORDERS_PER_SIDE < n \<Longrightarrow> 0 \<le> i \<Longrightarrow> i \<le> MAX_ORDERS_PER_SIDE \<Longrightarrow>
   scanSell sd n i bi bp = Inl OutOfBounds"
proof (induction sd n i bi bp rule: scanSell.induct)
  case (1 sd n i bi bp)
  have lt: "i < n" using "1.prems" by simp
  show ?case
  proof (cases "in_bounds i")
    case False
    then show ?thesis using lt by (simp add: scanSell.simps [of sd n i bi bp])
  next
    case ib: True
    then have le: "i + 1 \<le> MAX_ORDERS_PER_SIDE" by (simp add: in_bounds_def)
    show ?thesis
    proof (cases "active sd i \<and> 0 < sint (quantity sd i) \<and> dlt (price sd i) bp")
      case True
      then show ?thesis
        using "1.IH"(1) [OF lt _ True] ib "1.prems" lt le
        by (simp add: scanSell.simps [of sd n i bi bp])
    next
      case False
      then show ?thesis
        using "1.IH"(2) [OF lt _ False] ib "1.prems" lt le
        by (auto simp add: scanSell.simps [of sd n i bi bp])
    qed
  qed
qed

section \<open>What the selections return\<close>

lemma candidate_max: "candidate sd j \<longleftrightarrow> 0 \<le> j \<and> j < max 0 (sint (count sd)) \<and> live sd j"
  by (auto simp: candidate_def)

lemma selectBuy_defined:
  "sint (count sd) \<le> MAX_ORDERS_PER_SIDE \<Longrightarrow> \<exists>bi bp. selectBuy sd = Inr (bi, bp)"
  using scanBuy_defined [of "sint (count sd)" 0 sd "- 1" "Finite (- 1)"]
  by (auto simp: selectBuy_def)

lemma selectSell_defined:
  "sint (count sd) \<le> MAX_ORDERS_PER_SIDE \<Longrightarrow> \<exists>bi bp. selectSell sd = Inr (bi, bp)"
  using scanSell_defined [of "sint (count sd)" 0 sd "- 1" "Finite 1000000000"]
  by (auto simp: selectSell_def)

lemma selectBuy_bounded:
  "selectBuy sd = Inr r \<Longrightarrow> sint (count sd) \<le> MAX_ORDERS_PER_SIDE"
  using scanBuy_overflow [of "sint (count sd)" 0 sd "- 1" "Finite (- 1)"]
  by (cases "sint (count sd) \<le> MAX_ORDERS_PER_SIDE")
     (auto simp: selectBuy_def MAX_ORDERS_PER_SIDE_def)

lemma selectSell_bounded:
  "selectSell sd = Inr r \<Longrightarrow> sint (count sd) \<le> MAX_ORDERS_PER_SIDE"
  using scanSell_overflow [of "sint (count sd)" 0 sd "- 1" "Finite 1000000000"]
  by (cases "sint (count sd) \<le> MAX_ORDERS_PER_SIDE")
     (auto simp: selectSell_def MAX_ORDERS_PER_SIDE_def)

lemma selectBuy_inv:
  "selectBuy sd = Inr (bi, bp) \<Longrightarrow> buyInv sd (max 0 (sint (count sd))) bi bp"
  using scanBuy_inv [of sd "sint (count sd)" 0 "- 1" "Finite (- 1)" bi bp] buyInv_start
  by (simp add: selectBuy_def)

lemma selectSell_inv:
  "selectSell sd = Inr (bi, bp) \<Longrightarrow> sellInv sd (max 0 (sint (count sd))) bi bp"
  using scanSell_inv [of sd "sint (count sd)" 0 "- 1" "Finite 1000000000" bi bp] sellInv_start
  by (simp add: selectSell_def)

text \<open>A selected slot is a candidate, holds the returned price, and is the best one.\<close>

lemma selectBuy_some:
  assumes "selectBuy sd = Inr (bi, bp)" and "bi \<noteq> - 1"
  shows "candidate sd bi" and "price sd bi = bp" and "dgt bp (Finite (- 1))"
    and "isBestBid sd bi" and "firstAtPrice sd bi"
proof -
  note inv = selectBuy_inv [OF assms(1)]
  show c: "candidate sd bi" and p: "price sd bi = bp" and "dgt bp (Finite (- 1))"
    using inv assms(2) by (auto simp: buyInv_def candidate_max)
  show "isBestBid sd bi"
    using inv c p by (auto simp: isBestBid_def buyInv_def candidate_max)
  have nn: "bp \<noteq> NaN" using \<open>dgt bp (Finite (- 1))\<close> by (auto simp: dgt_def dest: dlt_not_NaN)
  show "firstAtPrice sd bi"
    unfolding firstAtPrice_def
  proof (intro allI impI)
    fix k assume k: "candidate sd k \<and> k < bi"
    then have "\<not> dge (price sd k) bp"
      using inv by (auto simp: buyInv_def candidate_def)
    then show "price sd k \<noteq> price sd bi" using p nn by (auto simp: dge_def)
  qed
qed

lemma selectBuy_none:
  assumes "selectBuy sd = Inr (bi, bp)" and "bi = - 1"
  shows "bp = Finite (- 1)" and "\<forall>j. candidate sd j \<longrightarrow> \<not> dgt (price sd j) (Finite (- 1))"
  using selectBuy_inv [OF assms(1)] assms(2) by (auto simp: buyInv_def candidate_max)

lemma selectSell_some:
  assumes "selectSell sd = Inr (bi, bp)" and "bi \<noteq> - 1"
  shows "candidate sd bi" and "price sd bi = bp" and "dlt bp (Finite 1000000000)"
    and "isBestAsk sd bi" and "firstAtPrice sd bi"
proof -
  note inv = selectSell_inv [OF assms(1)]
  show c: "candidate sd bi" and p: "price sd bi = bp" and "dlt bp (Finite 1000000000)"
    using inv assms(2) by (auto simp: sellInv_def candidate_max)
  show "isBestAsk sd bi"
    using inv c p by (auto simp: isBestAsk_def sellInv_def candidate_max)
  have nn: "bp \<noteq> NaN" using \<open>dlt bp (Finite 1000000000)\<close> by (auto dest: dlt_not_NaN)
  show "firstAtPrice sd bi"
    unfolding firstAtPrice_def
  proof (intro allI impI)
    fix k assume k: "candidate sd k \<and> k < bi"
    then have "\<not> dge bp (price sd k)"
      using inv by (auto simp: sellInv_def candidate_def)
    then show "price sd k \<noteq> price sd bi" using p nn by (auto simp: dge_def)
  qed
qed

lemma selectSell_none:
  assumes "selectSell sd = Inr (bi, bp)" and "bi = - 1"
  shows "bp = Finite 1000000000"
    and "\<forall>j. candidate sd j \<longrightarrow> \<not> dlt (price sd j) (Finite 1000000000)"
  using selectSell_inv [OF assms(1)] assms(2) by (auto simp: sellInv_def candidate_max)

section \<open>Signed 32-bit quantities\<close>

lemma sint_sub_no_wrap:
  fixes a b :: int32
  assumes "0 \<le> sint b" and "sint b \<le> sint a"
  shows "sint (a - b) = sint a - sint b"
proof -
  have "sint a < 2 ^ 31" using sint_lt [of a] by simp
  moreover have "- (2 ^ 31) \<le> sint a" using sint_ge [of a] by simp
  ultimately have "- (2 ^ 31) \<le> sint a - sint b" and "sint a - sint b < 2 ^ 31"
    using assms by linarith+
  then have "signed_take_bit 31 (sint a - sint b) = sint a - sint b"
    by (simp add: signed_take_bit_int_eq_self)
  then show ?thesis by (simp add: sint_word_diff)
qed

lemma sint_eq_0_iff: "sint (a :: int32) = 0 \<longleftrightarrow> a = 0"
  by (fact signed_eq_0_iff)

lemma sint_smin: "sint (smin a b) = min (sint a) (sint b)"
  by (simp add: smin_def min_def)

section \<open>The branches of matchOrder\<close>

lemma fillOrder_quantity:
  "quantity (fillOrder sd i q) = (quantity sd)(i := quantity sd i - q)"
  by (simp add: fillOrder_def Let_def)

lemma fillOrder_active:
  "active (fillOrder sd i q) = (if quantity sd i - q = 0 then (active sd)(i := False) else active sd)"
  by (simp add: fillOrder_def Let_def)

lemma fillOrder_rest:
  "count (fillOrder sd i q) = count sd" "price (fillOrder sd i q) = price sd"
  "orderId (fillOrder sd i q) = orderId sd"
  by (simp_all add: fillOrder_def Let_def)

lemma matchOrder_eval:
  assumes "valid_ticker t"
    and "selectBuy (buy (orderBooks m t)) = Inr (bi, bp)"
    and "selectSell (sell (orderBooks m t)) = Inr (si, sp)"
  shows "matchOrder t m =
     (if bi \<noteq> - 1 \<and> si \<noteq> - 1 \<and> dge bp sp
      then Inr (m\<lparr>orderBooks := (orderBooks m)(t :=
                   \<lparr> buy = fillOrder (buy (orderBooks m t)) bi
                             (smin (quantity (buy (orderBooks m t)) bi)
                                   (quantity (sell (orderBooks m t)) si)),
                     sell = fillOrder (sell (orderBooks m t)) si
                             (smin (quantity (buy (orderBooks m t)) bi)
                                   (quantity (sell (orderBooks m t)) si)) \<rparr>)\<rparr>,
                Some (TradeExecuted t
                        (smin (quantity (buy (orderBooks m t)) bi)
                              (quantity (sell (orderBooks m t)) si))
                        sp (orderId (buy (orderBooks m t)) bi)
                        (orderId (sell (orderBooks m t)) si)))
      else Inr (m, None))"
  using assms by (simp add: matchOrder_def Let_def)

lemma matchOrder_Inr:
  assumes "matchOrder t m = Inr r"
  shows "valid_ticker t \<and>
         (\<exists>bi bp si sp. selectBuy (buy (orderBooks m t)) = Inr (bi, bp) \<and>
                        selectSell (sell (orderBooks m t)) = Inr (si, sp))"
  using assms by (auto simp: matchOrder_def Let_def split: if_splits sum.splits)

lemma matchOrder_defined:
  assumes "valid_ticker t"
    and "sint (count (buy (orderBooks m t))) \<le> MAX_ORDERS_PER_SIDE"
    and "sint (count (sell (orderBooks m t))) \<le> MAX_ORDERS_PER_SIDE"
  shows "\<exists>m' ev. matchOrder t m = Inr (m', ev)"
proof -
  obtain bi bp where b: "selectBuy (buy (orderBooks m t)) = Inr (bi, bp)"
    using selectBuy_defined [OF assms(2)] by blast
  obtain si sp where s: "selectSell (sell (orderBooks m t)) = Inr (si, sp)"
    using selectSell_defined [OF assms(3)] by blast
  show ?thesis unfolding matchOrder_eval [OF assms(1) b s] by simp
qed

lemma matchOrder_skip: "matchOrder t m = Inr (m', None) \<Longrightarrow> m' = m"
  by (auto simp: matchOrder_def Let_def split: if_splits sum.splits)

text \<open>Two best prices of one side that are numbers are the same price.\<close>

lemma best_bid_price:
  assumes "isBestBid sd i" and "isBestBid sd k" and "price sd i \<noteq> NaN" and "price sd k \<noteq> NaN"
  shows "price sd i = price sd k"
  using assms dlt_total [of "price sd i" "price sd k"] by (auto simp: isBestBid_def dgt_def)

lemma best_ask_price:
  assumes "isBestAsk sd i" and "isBestAsk sd k" and "price sd i \<noteq> NaN" and "price sd k \<noteq> NaN"
  shows "price sd i = price sd k"
  using assms dlt_total [of "price sd i" "price sd k"] by (auto simp: isBestAsk_def)

lemma selectBuy_finds:
  assumes "selectBuy sd = Inr (bi, bp)" and "isBestBid sd i" and "dgt (price sd i) (Finite (- 1))"
  shows "bi \<noteq> - 1 \<and> bp = price sd i"
proof -
  have ne: "bi \<noteq> - 1"
    using selectBuy_none [OF assms(1)] assms(2,3) by (auto simp: isBestBid_def)
  have "price sd i \<noteq> NaN" using assms(3) by (auto simp: dgt_def dest: dlt_not_NaN)
  moreover have "price sd bi \<noteq> NaN"
    using selectBuy_some(2,3) [OF assms(1) ne] by (auto simp: dgt_def dest: dlt_not_NaN)
  ultimately have "price sd bi = price sd i"
    using best_bid_price [OF selectBuy_some(4) [OF assms(1) ne] assms(2)] by simp
  then show ?thesis using ne selectBuy_some(2) [OF assms(1) ne] by simp
qed

lemma selectSell_finds:
  assumes "selectSell sd = Inr (si, sp)" and "isBestAsk sd i"
    and "dlt (price sd i) (Finite 1000000000)"
  shows "si \<noteq> - 1 \<and> sp = price sd i"
proof -
  have ne: "si \<noteq> - 1"
    using selectSell_none [OF assms(1)] assms(2,3) by (auto simp: isBestAsk_def)
  have "price sd i \<noteq> NaN" using assms(3) by (auto dest: dlt_not_NaN)
  moreover have "price sd si \<noteq> NaN"
    using selectSell_some(2,3) [OF assms(1) ne] by (auto dest: dlt_not_NaN)
  ultimately have "price sd si = price sd i"
    using best_ask_price [OF selectSell_some(4) [OF assms(1) ne] assms(2)] by simp
  then show ?thesis using ne selectSell_some(2) [OF assms(1) ne] by simp
qed

lemma first_at_price_unique:
  assumes "candidate sd i" and "candidate sd k" and "price sd i = price sd k"
    and "firstAtPrice sd i" and "firstAtPrice sd k"
  shows "i = k"
proof (rule ccontr)
  assume "i \<noteq> k"
  then consider "i < k" | "k < i" by linarith
  then show False
  proof cases
    case 1 then show False using assms(1,3,5) by (auto simp: firstAtPrice_def)
  next
    case 2 then show False using assms(2,3,4) by (auto simp: firstAtPrice_def)
  qed
qed

section \<open>Evaluation of the example books\<close>

lemmas eval_defs =
  stateAfter_def eventsOf_def initMarket_def emptySide_def addOrder_def storeOrder_def
  matchOrder_def selectBuy_def selectSell_def in_bounds_def valid_ticker_def
  NUM_TICKERS_def MAX_ORDERS_PER_SIDE_def smin_def fillOrder_def dgt_def dge_def Let_def
  scanBuy.simps scanSell.simps

lemma crossedBook_match:
  "matchOrder 0 crossedBook =
     Inr (stateAfter [MatchOrder 0] crossedBook, Some (TradeExecuted 0 50 (Finite 90) 0 1))"
  by (simp add: crossedBook_def eval_defs)

lemma crossedBook_sides:
  "selectBuy (buy (orderBooks crossedBook 0)) = Inr (0, Finite 100)"
  "selectSell (sell (orderBooks crossedBook 0)) = Inr (0, Finite 90)"
  "price (buy (orderBooks crossedBook 0)) 0 = Finite 100"
  "price (sell (orderBooks crossedBook 0)) 0 = Finite 90"
  "quantity (buy (orderBooks crossedBook 0)) 0 = 50"
  "quantity (sell (orderBooks crossedBook 0)) 0 = 50"
  by (simp_all add: crossedBook_def eval_defs)

section \<open>The trade branch\<close>

lemma matchOrder_trade:
  assumes "matchOrder t m = Inr (m', Some e)"
  obtains bi bp si sp where
    "valid_ticker t"
    "selectBuy (buy (orderBooks m t)) = Inr (bi, bp)"
    "selectSell (sell (orderBooks m t)) = Inr (si, sp)"
    "bi \<noteq> - 1" "si \<noteq> - 1" "dge bp sp"
    "e = TradeExecuted t (smin (quantity (buy (orderBooks m t)) bi)
                               (quantity (sell (orderBooks m t)) si))
                         sp (orderId (buy (orderBooks m t)) bi)
                         (orderId (sell (orderBooks m t)) si)"
    "m' = m\<lparr>orderBooks := (orderBooks m)(t :=
              \<lparr> buy = fillOrder (buy (orderBooks m t)) bi
                        (smin (quantity (buy (orderBooks m t)) bi)
                              (quantity (sell (orderBooks m t)) si)),
                sell = fillOrder (sell (orderBooks m t)) si
                        (smin (quantity (buy (orderBooks m t)) bi)
                              (quantity (sell (orderBooks m t)) si)) \<rparr>)\<rparr>"
proof -
  obtain bi bp si sp where vt: "valid_ticker t"
    and b: "selectBuy (buy (orderBooks m t)) = Inr (bi, bp)"
    and s: "selectSell (sell (orderBooks m t)) = Inr (si, sp)"
    using matchOrder_Inr [OF assms] by blast
  have tr: "bi \<noteq> - 1 \<and> si \<noteq> - 1 \<and> dge bp sp"
    using assms unfolding matchOrder_eval [OF vt b s] by (auto split: if_splits)
  show thesis
    using assms tr unfolding matchOrder_eval [OF vt b s]
    by (intro that [OF vt b s]) auto
qed

section \<open>Execution price\<close>

text \<open>
  While both scans stay inside the arrays: whenever \<open>matchOrder\<close> returns a trade, the
  printed price is the price stored in the slot that the sell scan selected; that slot
  is a best ask (no candidate sell slot is cheaper). The price is the buy order's price
  only when the two prices are equal, and it is never the mean of two different finite
  prices.
\<close>

lemma matchOrder_price_is_best_ask:
  assumes "matchOrder t m = Inr (m', Some (TradeExecuted tk q p bid sid))"
  shows "\<exists>i j. selectBuy (buy (orderBooks m t)) = Inr (i, price (buy (orderBooks m t)) i) \<and>
               selectSell (sell (orderBooks m t)) = Inr (j, price (sell (orderBooks m t)) j) \<and>
               isBestBid (buy (orderBooks m t)) i \<and>
               isBestAsk (sell (orderBooks m t)) j \<and>
               bid = orderId (buy (orderBooks m t)) i \<and>
               sid = orderId (sell (orderBooks m t)) j \<and>
               p = price (sell (orderBooks m t)) j \<and>
               (price (buy (orderBooks m t)) i \<noteq> price (sell (orderBooks m t)) j \<longrightarrow>
                  p \<noteq> price (buy (orderBooks m t)) i) \<and>
               (\<forall>b s. price (buy (orderBooks m t)) i = Finite b \<and>
                      price (sell (orderBooks m t)) j = Finite s \<and> b \<noteq> s \<longrightarrow>
                      p \<noteq> Finite ((b + s) / 2))"
proof -
  from assms obtain bi bp si sp where
    b: "selectBuy (buy (orderBooks m t)) = Inr (bi, bp)"
    and s: "selectSell (sell (orderBooks m t)) = Inr (si, sp)"
    and bne: "bi \<noteq> - 1" and sne: "si \<noteq> - 1"
    and e: "TradeExecuted tk q p bid sid =
            TradeExecuted t (smin (quantity (buy (orderBooks m t)) bi)
                                  (quantity (sell (orderBooks m t)) si))
                            sp (orderId (buy (orderBooks m t)) bi)
                            (orderId (sell (orderBooks m t)) si)"
    by (rule matchOrder_trade)
  have ev: "p = sp \<and> bid = orderId (buy (orderBooks m t)) bi \<and>
            sid = orderId (sell (orderBooks m t)) si"
    using e by simp
  note bs = selectBuy_some [OF b bne]
  note ss = selectSell_some [OF s sne]
  have "\<forall>x y. price (buy (orderBooks m t)) bi = Finite x \<and>
               price (sell (orderBooks m t)) si = Finite y \<and> x \<noteq> y \<longrightarrow>
               p \<noteq> Finite ((x + y) / 2)"
  proof (intro allI impI)
    fix x y :: real
    assume h: "price (buy (orderBooks m t)) bi = Finite x \<and>
               price (sell (orderBooks m t)) si = Finite y \<and> x \<noteq> y"
    then have "p = Finite y" using ev ss(2) by simp
    moreover have "y \<noteq> (x + y) / 2" using h by (simp add: field_simps)
    ultimately show "p \<noteq> Finite ((x + y) / 2)" by simp
  qed
  then show ?thesis
    using b s bs(2,4) ss(2,4) ev by (intro exI [of _ bi] exI [of _ si]) simp
qed

lemma matchOrder_price_is_best_ask_witness:
  "matchOrder 0 crossedBook =
     Inr (stateAfter [MatchOrder 0] crossedBook, Some (TradeExecuted 0 50 (Finite 90) 0 1)) \<and>
   (\<exists>j. selectSell (sell (orderBooks crossedBook 0)) = Inr (j, Finite 90) \<and>
        price (sell (orderBooks crossedBook 0)) j = Finite 90)"
proof -
  obtain i j where
    "selectSell (sell (orderBooks crossedBook 0)) = Inr (j, price (sell (orderBooks crossedBook 0)) j)"
    and "Finite 90 = price (sell (orderBooks crossedBook 0)) j"
    using matchOrder_price_is_best_ask [OF crossedBook_match] by blast
  then show ?thesis using crossedBook_match by auto
qed

section \<open>When a trade executes\<close>

lemma highAskBook_facts:
  "valid_ticker 0"
  "sint (count (buy (orderBooks highAskBook 0))) = 1"
  "sint (count (sell (orderBooks highAskBook 0))) = 1"
  "live (buy (orderBooks highAskBook 0)) 0"
  "live (sell (orderBooks highAskBook 0)) 0"
  "price (buy (orderBooks highAskBook 0)) 0 = Finite 3000000000"
  "price (sell (orderBooks highAskBook 0)) 0 = Finite 2000000000"
  by (simp_all add: highAskBook_def live_def eval_defs)

lemma highAskBook_best:
  "isBestBid (buy (orderBooks highAskBook 0)) 0"
  "isBestAsk (sell (orderBooks highAskBook 0)) 0"
proof -
  have b: "k = 0" if "candidate (buy (orderBooks highAskBook 0)) k" for k
    using that by (simp add: candidate_def highAskBook_facts)
  have s: "k = 0" if "candidate (sell (orderBooks highAskBook 0)) k" for k
    using that by (simp add: candidate_def highAskBook_facts)
  show "isBestBid (buy (orderBooks highAskBook 0)) 0"
    unfolding isBestBid_def
  proof (intro conjI allI impI)
    show "candidate (buy (orderBooks highAskBook 0)) 0"
      by (simp add: candidate_def highAskBook_facts)
  next
    fix k assume "candidate (buy (orderBooks highAskBook 0)) k"
    then have "k = 0" by (rule b)
    then show "\<not> dgt (price (buy (orderBooks highAskBook 0)) k)
                     (price (buy (orderBooks highAskBook 0)) 0)"
      by (simp add: dgt_def)
  qed
  show "isBestAsk (sell (orderBooks highAskBook 0)) 0"
    unfolding isBestAsk_def
  proof (intro conjI allI impI)
    show "candidate (sell (orderBooks highAskBook 0)) 0"
      by (simp add: candidate_def highAskBook_facts)
  next
    fix k assume "candidate (sell (orderBooks highAskBook 0)) k"
    then have "k = 0" by (rule s)
    then show "\<not> dlt (price (sell (orderBooks highAskBook 0)) k)
                     (price (sell (orderBooks highAskBook 0)) 0)"
      by simp
  qed
qed

lemma highAskBook_match: "matchOrder 0 highAskBook = Inr (highAskBook, None)"
  by (simp add: highAskBook_def eval_defs)

lemma highAskBook_select:
  "selectSell (sell (orderBooks highAskBook 0)) = Inr (- 1, Finite 1000000000)"
  by (simp add: highAskBook_def eval_defs)

lemma crossedBook_facts:
  "valid_ticker 0"
  "sint (count (buy (orderBooks crossedBook 0))) = 1"
  "sint (count (sell (orderBooks crossedBook 0))) = 1"
  "live (buy (orderBooks crossedBook 0)) 0"
  "live (sell (orderBooks crossedBook 0)) 0"
  by (simp_all add: crossedBook_def live_def eval_defs)

text \<open>
  C2. The rule "a trade executes if and only if both sides hold an active order with
  positive quantity and the highest buy price is greater than or equal to the lowest
  sell price" fails in \<open>matchOrder\<close> at the book with one buy order at 3e9 and one sell
  order at 2e9: each side has its counter at 1 and a live order in slot 0, the bid is
  above the ask, and still the sell scan returns no slot (index \<open>-1\<close> at its start value
  1e9, which only a strictly lower price replaces), no trade executes and the state is
  unchanged.
\<close>

theorem sentinel_blocks_crossing_pair:
  "sint (count (buy (orderBooks highAskBook 0))) = 1 \<and>
   sint (count (sell (orderBooks highAskBook 0))) = 1 \<and>
   live (buy (orderBooks highAskBook 0)) 0 \<and>
   live (sell (orderBooks highAskBook 0)) 0 \<and>
   price (buy (orderBooks highAskBook 0)) 0 = Finite 3000000000 \<and>
   price (sell (orderBooks highAskBook 0)) 0 = Finite 2000000000 \<and>
   dge (Finite 3000000000) (Finite 2000000000) \<and>
   selectSell (sell (orderBooks highAskBook 0)) = Inr (- 1, Finite 1000000000) \<and>
   matchOrder 0 highAskBook = Inr (highAskBook, None)"
  using highAskBook_facts highAskBook_match highAskBook_select
  by (simp add: dge_def)

text \<open>
  What \<open>matchOrder\<close> does on the slots below the counters. For a valid ticker whose two
  counters do not exceed the capacity, \<open>matchOrder\<close> returns, and it executes a trade
  exactly when there are a best bid above the start value \<open>-1.0\<close> and a best ask below
  the start value \<open>1e9\<close> with the bid price greater than or equal to the ask price. When
  it executes no trade the whole state is unchanged.
\<close>

lemma trade_iff_crossing:
  assumes "valid_ticker t"
    and "sint (count (buy (orderBooks m t))) \<le> MAX_ORDERS_PER_SIDE"
    and "sint (count (sell (orderBooks m t))) \<le> MAX_ORDERS_PER_SIDE"
  shows "\<exists>m' ev. matchOrder t m = Inr (m', ev) \<and>
           ((ev \<noteq> None) =
              (\<exists>i j. isBestBid (buy (orderBooks m t)) i \<and>
                     dgt (price (buy (orderBooks m t)) i) (Finite (- 1)) \<and>
                     isBestAsk (sell (orderBooks m t)) j \<and>
                     dlt (price (sell (orderBooks m t)) j) (Finite 1000000000) \<and>
                     dge (price (buy (orderBooks m t)) i) (price (sell (orderBooks m t)) j))) \<and>
           (ev = None \<longrightarrow> m' = m)"
proof -
  obtain bi bp where b: "selectBuy (buy (orderBooks m t)) = Inr (bi, bp)"
    using selectBuy_defined [OF assms(2)] by blast
  obtain si sp where s: "selectSell (sell (orderBooks m t)) = Inr (si, sp)"
    using selectSell_defined [OF assms(3)] by blast
  let ?X = "\<exists>i j. isBestBid (buy (orderBooks m t)) i \<and>
                     dgt (price (buy (orderBooks m t)) i) (Finite (- 1)) \<and>
                     isBestAsk (sell (orderBooks m t)) j \<and>
                     dlt (price (sell (orderBooks m t)) j) (Finite 1000000000) \<and>
                     dge (price (buy (orderBooks m t)) i) (price (sell (orderBooks m t)) j)"
  note ev = matchOrder_eval [OF assms(1) b s]
  show ?thesis
  proof (cases "bi \<noteq> - 1 \<and> si \<noteq> - 1 \<and> dge bp sp")
    case True
    then have bne: "bi \<noteq> - 1" and sne: "si \<noteq> - 1" and ge: "dge bp sp" by simp_all
    have ?X
      using selectBuy_some(2,3,4) [OF b bne] selectSell_some(2,3,4) [OF s sne] ge
      by (intro exI [of _ bi] exI [of _ si]) simp
    moreover have "\<exists>m1 e1. matchOrder t m = Inr (m1, Some e1)"
      unfolding ev if_P [OF True] by blast
    ultimately show ?thesis by auto
  next
    case False
    have "\<not> ?X"
    proof
      assume ?X
      then obtain i j where i: "isBestBid (buy (orderBooks m t)) i"
        "dgt (price (buy (orderBooks m t)) i) (Finite (- 1))"
        and j: "isBestAsk (sell (orderBooks m t)) j"
        "dlt (price (sell (orderBooks m t)) j) (Finite 1000000000)"
        and ge: "dge (price (buy (orderBooks m t)) i) (price (sell (orderBooks m t)) j)"
        by blast
      show False
        using selectBuy_finds [OF b i] selectSell_finds [OF s j] ge False by simp
    qed
    moreover have "matchOrder t m = Inr (m, None)"
      by (rule trans [OF ev if_not_P [OF False]])
    ultimately show ?thesis by (intro exI [of _ m] exI [of _ None]) simp
  qed
qed

lemma trade_iff_crossing_witness:
  "valid_ticker 0 \<and>
   sint (count (buy (orderBooks crossedBook 0))) \<le> MAX_ORDERS_PER_SIDE \<and>
   sint (count (sell (orderBooks crossedBook 0))) \<le> MAX_ORDERS_PER_SIDE \<and>
   (\<exists>i j. isBestBid (buy (orderBooks crossedBook 0)) i \<and>
          isBestAsk (sell (orderBooks crossedBook 0)) j \<and>
          dge (price (buy (orderBooks crossedBook 0)) i)
              (price (sell (orderBooks crossedBook 0)) j))"
proof -
  have h: "sint (count (buy (orderBooks crossedBook 0))) \<le> MAX_ORDERS_PER_SIDE"
    "sint (count (sell (orderBooks crossedBook 0))) \<le> MAX_ORDERS_PER_SIDE"
    by (simp_all add: crossedBook_facts MAX_ORDERS_PER_SIDE_def)
  show ?thesis
    using trade_iff_crossing [OF crossedBook_facts(1) h] crossedBook_match h
      crossedBook_facts(1)
    by auto
qed

section \<open>Traded quantity\<close>

text \<open>
  While both scans stay inside the arrays: whenever \<open>matchOrder\<close> returns a trade
  between the selected buy slot \<open>i\<close> and the
  selected sell slot \<open>j\<close>, the traded quantity is the minimum of the two remaining
  quantities, each of the two quantities goes down by exactly the traded quantity, and
  afterwards each of the two slots is active exactly when its quantity is still positive
  (both were active before).
\<close>

lemma trade_quantity_is_min:
  assumes "matchOrder t m = Inr (m', Some (TradeExecuted tk q p bid sid))"
  shows "\<exists>i j. selectBuy (buy (orderBooks m t)) = Inr (i, price (buy (orderBooks m t)) i) \<and>
               selectSell (sell (orderBooks m t)) = Inr (j, price (sell (orderBooks m t)) j) \<and>
               active (buy (orderBooks m t)) i \<and> active (sell (orderBooks m t)) j \<and>
               sint q = min (sint (quantity (buy (orderBooks m t)) i))
                            (sint (quantity (sell (orderBooks m t)) j)) \<and>
               0 < sint q \<and>
               sint (quantity (buy (orderBooks m' t)) i) =
                 sint (quantity (buy (orderBooks m t)) i) - sint q \<and>
               sint (quantity (sell (orderBooks m' t)) j) =
                 sint (quantity (sell (orderBooks m t)) j) - sint q \<and>
               active (buy (orderBooks m' t)) i = (0 < sint (quantity (buy (orderBooks m' t)) i)) \<and>
               active (sell (orderBooks m' t)) j = (0 < sint (quantity (sell (orderBooks m' t)) j))"
proof -
  let ?b = "buy (orderBooks m t)" and ?s = "sell (orderBooks m t)"
  from assms obtain bi bp si sp where
    b: "selectBuy ?b = Inr (bi, bp)"
    and s: "selectSell ?s = Inr (si, sp)"
    and bne: "bi \<noteq> - 1" and sne: "si \<noteq> - 1"
    and e: "TradeExecuted tk q p bid sid =
            TradeExecuted t (smin (quantity ?b bi) (quantity ?s si))
                            sp (orderId ?b bi) (orderId ?s si)"
    and m': "m' = m\<lparr>orderBooks := (orderBooks m)(t :=
              \<lparr> buy = fillOrder ?b bi (smin (quantity ?b bi) (quantity ?s si)),
                sell = fillOrder ?s si (smin (quantity ?b bi) (quantity ?s si)) \<rparr>)\<rparr>"
    by (rule matchOrder_trade)
  have q: "q = smin (quantity ?b bi) (quantity ?s si)" using e by simp
  have lb: "live ?b bi" and ls: "live ?s si"
    using selectBuy_some(1) [OF b bne] selectSell_some(1) [OF s sne]
    by (simp_all add: candidate_def)
  have qmin: "sint q = min (sint (quantity ?b bi)) (sint (quantity ?s si))"
    by (simp add: q sint_smin)
  have qpos: "0 < sint q" using qmin lb ls by (simp add: live_def)
  have db: "sint (quantity ?b bi - q) = sint (quantity ?b bi) - sint q"
    using qmin qpos by (intro sint_sub_no_wrap) simp_all
  have ds: "sint (quantity ?s si - q) = sint (quantity ?s si) - sint q"
    using qmin qpos by (intro sint_sub_no_wrap) simp_all
  have zb: "(quantity ?b bi - q = 0) = (\<not> 0 < sint (quantity ?b bi - q))"
    using db qmin sint_eq_0_iff [of "quantity ?b bi - q"] by auto
  have zs: "(quantity ?s si - q = 0) = (\<not> 0 < sint (quantity ?s si - q))"
    using ds qmin sint_eq_0_iff [of "quantity ?s si - q"] by auto
  have nb: "quantity (buy (orderBooks m' t)) bi = quantity ?b bi - q"
    and ns: "quantity (sell (orderBooks m' t)) si = quantity ?s si - q"
    by (simp_all add: m' q fillOrder_quantity)
  have ab: "active (buy (orderBooks m' t)) bi = (0 < sint (quantity ?b bi - q))"
    using lb zb by (simp add: m' fillOrder_active live_def flip: q)
  have as: "active (sell (orderBooks m' t)) si = (0 < sint (quantity ?s si - q))"
    using ls zs by (simp add: m' fillOrder_active live_def flip: q)
  show ?thesis
    using b s selectBuy_some(2) [OF b bne] selectSell_some(2) [OF s sne]
      lb ls qmin qpos db ds nb ns ab as
    by (intro exI [of _ bi] exI [of _ si]) (simp add: live_def)
qed

lemma partialBook_match:
  "matchOrder 0 partialBook =
     Inr (stateAfter [MatchOrder 0] partialBook, Some (TradeExecuted 0 30 (Finite 90) 0 1))"
  by (simp add: partialBook_def eval_defs)

lemma partialBook_sides:
  "selectBuy (buy (orderBooks partialBook 0)) = Inr (0, Finite 100)"
  "selectSell (sell (orderBooks partialBook 0)) = Inr (0, Finite 90)"
  "quantity (buy (orderBooks partialBook 0)) 0 = 30"
  "quantity (sell (orderBooks partialBook 0)) 0 = 50"
  by (simp_all add: partialBook_def eval_defs)

lemma trade_quantity_is_min_witness:
  "matchOrder 0 partialBook =
     Inr (stateAfter [MatchOrder 0] partialBook, Some (TradeExecuted 0 30 (Finite 90) 0 1)) \<and>
   sint (quantity (buy (orderBooks (stateAfter [MatchOrder 0] partialBook) 0)) 0) = 0 \<and>
   sint (quantity (sell (orderBooks (stateAfter [MatchOrder 0] partialBook) 0)) 0) = 20 \<and>
   \<not> active (buy (orderBooks (stateAfter [MatchOrder 0] partialBook) 0)) 0 \<and>
   active (sell (orderBooks (stateAfter [MatchOrder 0] partialBook) 0)) 0"
proof -
  obtain i j where
    "selectBuy (buy (orderBooks partialBook 0)) = Inr (i, price (buy (orderBooks partialBook 0)) i)"
    "selectSell (sell (orderBooks partialBook 0)) = Inr (j, price (sell (orderBooks partialBook 0)) j)"
    and r: "sint (quantity (buy (orderBooks (stateAfter [MatchOrder 0] partialBook) 0)) i) =
         sint (quantity (buy (orderBooks partialBook 0)) i) - sint (30 :: int32)"
      "sint (quantity (sell (orderBooks (stateAfter [MatchOrder 0] partialBook) 0)) j) =
         sint (quantity (sell (orderBooks partialBook 0)) j) - sint (30 :: int32)"
      "active (buy (orderBooks (stateAfter [MatchOrder 0] partialBook) 0)) i =
         (0 < sint (quantity (buy (orderBooks (stateAfter [MatchOrder 0] partialBook) 0)) i))"
      "active (sell (orderBooks (stateAfter [MatchOrder 0] partialBook) 0)) j =
         (0 < sint (quantity (sell (orderBooks (stateAfter [MatchOrder 0] partialBook) 0)) j))"
    using trade_quantity_is_min [OF partialBook_match] by blast
  then have "i = 0" "j = 0" by (simp_all add: partialBook_sides)
  then show ?thesis using r partialBook_match by (simp add: partialBook_sides)
qed

section \<open>Tie-break\<close>

lemma tiedHighAskBook_facts:
  "sint (count (sell (orderBooks tiedHighAskBook 0))) = 2"
  "live (sell (orderBooks tiedHighAskBook 0)) 0"
  "live (sell (orderBooks tiedHighAskBook 0)) 1"
  "price (sell (orderBooks tiedHighAskBook 0)) 0 = Finite 2000000000"
  "price (sell (orderBooks tiedHighAskBook 0)) 1 = Finite 2000000000"
  "selectSell (sell (orderBooks tiedHighAskBook 0)) = Inr (- 1, Finite 1000000000)"
  by (simp_all add: tiedHighAskBook_def live_def eval_defs)

lemma firstAtPrice_zero: "firstAtPrice sd 0"
  by (auto simp: firstAtPrice_def candidate_def)

lemma int_below_2: "0 \<le> k \<Longrightarrow> k < 2 \<Longrightarrow> k = 0 \<or> k = (1 :: int)"
  by linarith

lemma tiedHighAskBook_best: "isBestAsk (sell (orderBooks tiedHighAskBook 0)) 0"
  unfolding isBestAsk_def
proof (intro conjI allI impI)
  show "candidate (sell (orderBooks tiedHighAskBook 0)) 0"
    by (simp add: candidate_def tiedHighAskBook_facts)
next
  fix k assume "candidate (sell (orderBooks tiedHighAskBook 0)) k"
  then have "k = 0 \<or> k = 1"
    by (intro int_below_2) (simp_all add: candidate_def tiedHighAskBook_facts)
  then show "\<not> dlt (price (sell (orderBooks tiedHighAskBook 0)) k)
                   (price (sell (orderBooks tiedHighAskBook 0)) 0)"
    by (auto simp: tiedHighAskBook_facts)
qed

text \<open>
  C4. The rule "of two or more active orders with positive quantity at the same best
  price, the one in the lowest slot is selected" fails in the sell scan at a side that
  holds two live orders at the same price 2e9 in slots 0 and 1, below a counter of 2:
  the scan selects neither (it returns index \<open>-1\<close> at its start value 1e9).
\<close>

theorem sentinel_blocks_tied_asks:
  "sint (count (sell (orderBooks tiedHighAskBook 0))) = 2 \<and>
   live (sell (orderBooks tiedHighAskBook 0)) 0 \<and>
   live (sell (orderBooks tiedHighAskBook 0)) 1 \<and>
   price (sell (orderBooks tiedHighAskBook 0)) 0 = Finite 2000000000 \<and>
   price (sell (orderBooks tiedHighAskBook 0)) 1 = Finite 2000000000 \<and>
   selectSell (sell (orderBooks tiedHighAskBook 0)) = Inr (- 1, Finite 1000000000)"
  by (simp add: tiedHighAskBook_facts)

text \<open>
  The tie-break on the slots below the counter. On a side whose counter does not exceed
  the capacity: when the best bid
  price is above the sentinel \<open>-1.0\<close>, the buy scan returns the first candidate slot that
  holds the best bid price; when the best ask price is below the sentinel \<open>1e9\<close>, the
  sell scan returns the first candidate slot that holds the best ask price.
\<close>

lemma tie_break_lowest_index:
  "(sint (count sd) \<le> MAX_ORDERS_PER_SIDE \<and> isBestBid sd i \<and>
      dgt (price sd i) (Finite (- 1)) \<and> firstAtPrice sd i \<longrightarrow>
      selectBuy sd = Inr (i, price sd i)) \<and>
   (sint (count sd) \<le> MAX_ORDERS_PER_SIDE \<and> isBestAsk sd i \<and>
      dlt (price sd i) (Finite 1000000000) \<and> firstAtPrice sd i \<longrightarrow>
      selectSell sd = Inr (i, price sd i))"
proof (intro conjI impI)
  assume h: "sint (count sd) \<le> MAX_ORDERS_PER_SIDE \<and> isBestBid sd i \<and>
      dgt (price sd i) (Finite (- 1)) \<and> firstAtPrice sd i"
  then obtain bi bp where b: "selectBuy sd = Inr (bi, bp)"
    using selectBuy_defined by blast
  have f: "bi \<noteq> - 1" "bp = price sd i" using selectBuy_finds [OF b, of i] h by auto
  have "bi = i"
    using first_at_price_unique [of sd bi i] selectBuy_some(1,2,5) [OF b f(1)] f(2) h
    by (simp add: isBestBid_def)
  then show "selectBuy sd = Inr (i, price sd i)" using b f(2) by simp
next
  assume h: "sint (count sd) \<le> MAX_ORDERS_PER_SIDE \<and> isBestAsk sd i \<and>
      dlt (price sd i) (Finite 1000000000) \<and> firstAtPrice sd i"
  then obtain si sp where s: "selectSell sd = Inr (si, sp)"
    using selectSell_defined by blast
  have f: "si \<noteq> - 1" "sp = price sd i" using selectSell_finds [OF s, of i] h by auto
  have "si = i"
    using first_at_price_unique [of sd si i] selectSell_some(1,2,5) [OF s f(1)] f(2) h
    by (simp add: isBestAsk_def)
  then show "selectSell sd = Inr (i, price sd i)" using s f(2) by simp
qed

lemma tiedBook_facts:
  "sint (count (buy (orderBooks tiedBook 0))) = 3"
  "sint (count (sell (orderBooks tiedBook 0))) = 2"
  "live (buy (orderBooks tiedBook 0)) 0"
  "live (buy (orderBooks tiedBook 0)) 1"
  "live (buy (orderBooks tiedBook 0)) 2"
  "live (sell (orderBooks tiedBook 0)) 0"
  "live (sell (orderBooks tiedBook 0)) 1"
  "price (buy (orderBooks tiedBook 0)) 0 = Finite 99"
  "price (buy (orderBooks tiedBook 0)) 1 = Finite 100"
  "price (buy (orderBooks tiedBook 0)) 2 = Finite 100"
  "price (sell (orderBooks tiedBook 0)) 0 = Finite 50"
  "price (sell (orderBooks tiedBook 0)) 1 = Finite 50"
  by (simp_all add: tiedBook_def live_def eval_defs)

lemma int_below_3: "0 \<le> k \<Longrightarrow> k < 3 \<Longrightarrow> k = 0 \<or> k = 1 \<or> k = (2 :: int)"
  by linarith

lemma tiedBook_best:
  "isBestBid (buy (orderBooks tiedBook 0)) 1" "firstAtPrice (buy (orderBooks tiedBook 0)) 1"
  "isBestAsk (sell (orderBooks tiedBook 0)) 0" "firstAtPrice (sell (orderBooks tiedBook 0)) 0"
proof -
  have b: "k = 0 \<or> k = 1 \<or> k = 2" if "candidate (buy (orderBooks tiedBook 0)) k" for k
    using that by (intro int_below_3) (simp_all add: candidate_def tiedBook_facts)
  have s: "k = 0 \<or> k = 1" if "candidate (sell (orderBooks tiedBook 0)) k" for k
    using that by (intro int_below_2) (simp_all add: candidate_def tiedBook_facts)
  show "isBestBid (buy (orderBooks tiedBook 0)) 1"
    unfolding isBestBid_def
  proof (intro conjI allI impI)
    show "candidate (buy (orderBooks tiedBook 0)) 1"
      by (simp add: candidate_def tiedBook_facts)
  next
    fix k assume "candidate (buy (orderBooks tiedBook 0)) k"
    then have "k = 0 \<or> k = 1 \<or> k = 2" by (rule b)
    then show "\<not> dgt (price (buy (orderBooks tiedBook 0)) k)
                     (price (buy (orderBooks tiedBook 0)) 1)"
      by (auto simp: tiedBook_facts dgt_def)
  qed
  show "firstAtPrice (buy (orderBooks tiedBook 0)) 1"
    unfolding firstAtPrice_def
  proof (intro allI impI)
    fix k assume k: "candidate (buy (orderBooks tiedBook 0)) k \<and> k < 1"
    then have "k = 0" by (simp add: candidate_def)
    then show "price (buy (orderBooks tiedBook 0)) k \<noteq> price (buy (orderBooks tiedBook 0)) 1"
      by (simp add: tiedBook_facts)
  qed
  show "isBestAsk (sell (orderBooks tiedBook 0)) 0"
    unfolding isBestAsk_def
  proof (intro conjI allI impI)
    show "candidate (sell (orderBooks tiedBook 0)) 0"
      by (simp add: candidate_def tiedBook_facts)
  next
    fix k assume "candidate (sell (orderBooks tiedBook 0)) k"
    then have "k = 0 \<or> k = 1" by (rule s)
    then show "\<not> dlt (price (sell (orderBooks tiedBook 0)) k)
                     (price (sell (orderBooks tiedBook 0)) 0)"
      by (auto simp: tiedBook_facts)
  qed
  show "firstAtPrice (sell (orderBooks tiedBook 0)) 0"
    by (rule firstAtPrice_zero)
qed

lemma tie_break_lowest_index_witness:
  "selectBuy (buy (orderBooks tiedBook 0)) = Inr (1, Finite 100) \<and>
   price (buy (orderBooks tiedBook 0)) 2 = Finite 100 \<and>
   selectSell (sell (orderBooks tiedBook 0)) = Inr (0, Finite 50) \<and>
   price (sell (orderBooks tiedBook 0)) 1 = Finite 50"
  using tie_break_lowest_index [of "buy (orderBooks tiedBook 0)" 1]
    tie_break_lowest_index [of "sell (orderBooks tiedBook 0)" 0] tiedBook_best
  by (simp add: tiedBook_facts MAX_ORDERS_PER_SIDE_def dgt_def)

section \<open>Sell orders at or above the sentinel\<close>

text \<open>
  While both scans stay inside the arrays: when every candidate sell slot of a book has
  a price greater than or equal to 1e9, \<open>matchOrder\<close> returns no trade on it, whatever
  the buy side holds: the sell
  scan returns no slot (index \<open>-1\<close>, price 1e9), and with a valid ticker and counters
  within the capacity the call returns the state unchanged and prints nothing.
\<close>

lemma high_asks_never_match:
  assumes "\<forall>j. candidate (sell (orderBooks m t)) j \<longrightarrow>
               dge (price (sell (orderBooks m t)) j) (Finite 1000000000)"
  shows "(\<forall>m' e. matchOrder t m \<noteq> Inr (m', Some e)) \<and>
         (sint (count (sell (orderBooks m t))) \<le> MAX_ORDERS_PER_SIDE \<longrightarrow>
            selectSell (sell (orderBooks m t)) = Inr (- 1, Finite 1000000000)) \<and>
         (valid_ticker t \<and>
          sint (count (buy (orderBooks m t))) \<le> MAX_ORDERS_PER_SIDE \<and>
          sint (count (sell (orderBooks m t))) \<le> MAX_ORDERS_PER_SIDE \<longrightarrow>
            matchOrder t m = Inr (m, None))"
proof -
  have none: "si = - 1 \<and> sp = Finite 1000000000"
    if s: "selectSell (sell (orderBooks m t)) = Inr (si, sp)" for si sp
  proof -
    have "si = - 1"
    proof (rule ccontr)
      assume ne: "si \<noteq> - 1"
      have "dge (price (sell (orderBooks m t)) si) (Finite 1000000000)"
        using assms selectSell_some(1) [OF s ne] by blast
      then show False
        using selectSell_some(2,3) [OF s ne] by (auto dest: dge_not_dlt)
    qed
    then show ?thesis using selectSell_none(1) [OF s] by simp
  qed
  have a: "\<forall>m' e. matchOrder t m \<noteq> Inr (m', Some e)"
  proof (intro allI notI)
    fix m' e assume "matchOrder t m = Inr (m', Some e)"
    then obtain si sp where "selectSell (sell (orderBooks m t)) = Inr (si, sp)" "si \<noteq> - 1"
      by (rule matchOrder_trade)
    then show False using none by blast
  qed
  have b: "selectSell (sell (orderBooks m t)) = Inr (- 1, Finite 1000000000)"
    if "sint (count (sell (orderBooks m t))) \<le> MAX_ORDERS_PER_SIDE"
    using selectSell_defined [OF that] none by auto
  have c: "matchOrder t m = Inr (m, None)"
    if ok: "valid_ticker t \<and>
        sint (count (buy (orderBooks m t))) \<le> MAX_ORDERS_PER_SIDE \<and>
        sint (count (sell (orderBooks m t))) \<le> MAX_ORDERS_PER_SIDE"
  proof -
    obtain m' ev where r: "matchOrder t m = Inr (m', ev)"
      using matchOrder_defined [of t m] ok by blast
    then have "ev = None" using a by (cases ev) auto
    then show ?thesis using r matchOrder_skip by blast
  qed
  show ?thesis using a b c by blast
qed

lemma highBidBook_facts:
  "valid_ticker 0"
  "sint (count (buy (orderBooks highBidBook 0))) = 1"
  "sint (count (sell (orderBooks highBidBook 0))) = 1"
  "live (buy (orderBooks highBidBook 0)) 0"
  "live (sell (orderBooks highBidBook 0)) 0"
  "price (buy (orderBooks highBidBook 0)) 0 = Finite 5000000000"
  "price (sell (orderBooks highBidBook 0)) 0 = Finite 1000000000"
  by (simp_all add: highBidBook_def live_def eval_defs)

lemma high_asks_never_match_witness:
  "candidate (buy (orderBooks highBidBook 0)) 0 \<and>
   candidate (sell (orderBooks highBidBook 0)) 0 \<and>
   dgt (price (buy (orderBooks highBidBook 0)) 0) (price (sell (orderBooks highBidBook 0)) 0) \<and>
   selectSell (sell (orderBooks highBidBook 0)) = Inr (- 1, Finite 1000000000) \<and>
   matchOrder 0 highBidBook = Inr (highBidBook, None)"
proof -
  have h: "\<forall>j. candidate (sell (orderBooks highBidBook 0)) j \<longrightarrow>
               dge (price (sell (orderBooks highBidBook 0)) j) (Finite 1000000000)"
  proof (intro allI impI)
    fix j assume "candidate (sell (orderBooks highBidBook 0)) j"
    then have "j = 0" by (simp add: candidate_def highBidBook_facts)
    then show "dge (price (sell (orderBooks highBidBook 0)) j) (Finite 1000000000)"
      by (simp add: highBidBook_facts dge_def)
  qed
  show ?thesis
    using high_asks_never_match [OF h]
    by (simp add: highBidBook_facts candidate_def MAX_ORDERS_PER_SIDE_def dgt_def)
qed

section \<open>The counter as a 32-bit value\<close>

lemma sint_nonneg_uint:
  fixes c :: int32
  assumes "0 \<le> sint c"
  shows "sint c = uint c"
proof -
  have "sint c < 2 ^ 32" using sint_lt [of c] by simp
  then have "take_bit 32 (sint c) = sint c"
    using assms by (intro take_bit_int_eq_self) simp_all
  then show ?thesis by (simp add: uint_sint)
qed

lemma uint_below_sint:
  fixes c :: int32
  assumes "uint c < 2 ^ 31"
  shows "sint c = uint c"
proof -
  have "- (2 ^ 31) \<le> uint c" by (rule order_trans [of _ 0]) simp_all
  then have "signed_take_bit 31 (uint c) = uint c"
    using assms by (intro signed_take_bit_int_eq_self) simp_all
  then show ?thesis by (simp add: sint_uint)
qed

lemma uint_succ:
  fixes c :: int32
  assumes "0 \<le> sint c"
  shows "uint (c + 1) = uint c + 1"
proof -
  have "uint c < 2 ^ 31" using sint_lt [of c] sint_nonneg_uint [OF assms] by simp
  then have "uint c + uint (1 :: int32) < 2 ^ LENGTH(32)" by simp
  then show ?thesis by (simp add: uint_add_lem [THEN iffD1])
qed

section \<open>The branches of addOrder\<close>

lemma storeOrder_eval:
  "storeOrder sd oid q p =
     (if sint (count sd) < 0 then Inl OutOfBounds
      else if sint (count sd) < MAX_ORDERS_PER_SIDE
      then Inr (sd\<lparr>count := count sd + 1,
                   orderId := (orderId sd)(sint (count sd) := oid),
                   quantity := (quantity sd)(sint (count sd) := q),
                   price := (price sd)(sint (count sd) := p),
                   active := (active sd)(sint (count sd) := True)\<rparr>, True)
      else Inr (sd\<lparr>count := count sd + 1\<rparr>, False))"
  by (simp add: storeOrder_def Let_def in_bounds_def MAX_ORDERS_PER_SIDE_def)

lemma addOrder_eval:
  "addOrder ty t q p m =
     (if \<not> valid_ticker t then Inl OutOfBounds
      else case storeOrder (side ty (orderBooks m t)) (globalOrderId m) q p of
             Inl e \<Rightarrow> Inl e
           | Inr (sd, stored) \<Rightarrow>
               Inr (m\<lparr>globalOrderId := globalOrderId m + 1,
                      orderBooks := (orderBooks m)(t := setSide ty sd (orderBooks m t))\<rparr>,
                    if stored then None else Some (bookFull ty t)))"
  by (cases ty) (simp_all add: addOrder_def Let_def split: sum.splits)

lemma side_setSide: "side ty' (setSide ty sd ob) = (if ty' = ty then sd else side ty' ob)"
  by (cases ty; cases ty') simp_all

text \<open>A defined \<open>addOrder\<close>: it stored the order in a free slot, or the book was full.\<close>

lemma addOrder_Inr:
  assumes "addOrder ty t q p m = Inr (m', ev)"
  obtains (stored) sd where
      "valid_ticker t" "in_bounds (sint (count (side ty (orderBooks m t))))" "ev = None"
      "sd = (side ty (orderBooks m t))
              \<lparr>count := count (side ty (orderBooks m t)) + 1,
               orderId := (orderId (side ty (orderBooks m t)))
                            (sint (count (side ty (orderBooks m t))) := globalOrderId m),
               quantity := (quantity (side ty (orderBooks m t)))
                            (sint (count (side ty (orderBooks m t))) := q),
               price := (price (side ty (orderBooks m t)))
                            (sint (count (side ty (orderBooks m t))) := p),
               active := (active (side ty (orderBooks m t)))
                            (sint (count (side ty (orderBooks m t))) := True)\<rparr>"
      "m' = m\<lparr>globalOrderId := globalOrderId m + 1,
              orderBooks := (orderBooks m)(t := setSide ty sd (orderBooks m t))\<rparr>"
  | (full) sd where
      "valid_ticker t" "MAX_ORDERS_PER_SIDE \<le> sint (count (side ty (orderBooks m t)))"
      "ev = Some (bookFull ty t)"
      "sd = (side ty (orderBooks m t))\<lparr>count := count (side ty (orderBooks m t)) + 1\<rparr>"
      "m' = m\<lparr>globalOrderId := globalOrderId m + 1,
              orderBooks := (orderBooks m)(t := setSide ty sd (orderBooks m t))\<rparr>"
proof -
  have vt: "valid_ticker t" using assms by (auto simp: addOrder_eval split: if_splits)
  have nn: "\<not> sint (count (side ty (orderBooks m t))) < 0"
    using assms vt by (auto simp: addOrder_eval storeOrder_eval split: if_splits)
  show thesis
  proof (cases "sint (count (side ty (orderBooks m t))) < MAX_ORDERS_PER_SIDE")
    case True
    then show thesis
      using assms vt nn
      by (intro stored [OF vt _ _ refl]) (auto simp: addOrder_eval storeOrder_eval in_bounds_def)
  next
    case False
    then show thesis
      using assms vt nn
      by (intro full [OF vt _ _ refl]) (auto simp: addOrder_eval storeOrder_eval)
  qed
qed

lemma addOrder_stored:
  assumes "valid_ticker t" and "in_bounds (sint (count (side ty (orderBooks m t))))"
  shows "addOrder ty t q p m =
           Inr (m\<lparr>globalOrderId := globalOrderId m + 1,
                  orderBooks := (orderBooks m)(t := setSide ty
                    ((side ty (orderBooks m t))
                       \<lparr>count := count (side ty (orderBooks m t)) + 1,
                        orderId := (orderId (side ty (orderBooks m t)))
                            (sint (count (side ty (orderBooks m t))) := globalOrderId m),
                        quantity := (quantity (side ty (orderBooks m t)))
                            (sint (count (side ty (orderBooks m t))) := q),
                        price := (price (side ty (orderBooks m t)))
                            (sint (count (side ty (orderBooks m t))) := p),
                        active := (active (side ty (orderBooks m t)))
                            (sint (count (side ty (orderBooks m t))) := True)\<rparr>)
                    (orderBooks m t))\<rparr>, None)"
  using assms by (simp add: addOrder_eval storeOrder_eval in_bounds_def)

lemma addOrder_full:
  assumes "valid_ticker t" and "MAX_ORDERS_PER_SIDE \<le> sint (count (side ty (orderBooks m t)))"
  shows "addOrder ty t q p m =
           Inr (m\<lparr>globalOrderId := globalOrderId m + 1,
                  orderBooks := (orderBooks m)(t := setSide ty
                    ((side ty (orderBooks m t))\<lparr>count := count (side ty (orderBooks m t)) + 1\<rparr>)
                    (orderBooks m t))\<rparr>, Some (bookFull ty t))"
  using assms by (simp add: addOrder_eval storeOrder_eval MAX_ORDERS_PER_SIDE_def)

section \<open>Submissions that the interface excludes\<close>

text \<open>
  C8, as stated, at the submission of a buy order with quantity 0 and price -5 to the
  empty market: nothing is rejected; the order id 0 is consumed, the counter goes to 1
  and slot 0 is written and activated.
\<close>

theorem invalid_order_rejected_counterexample:
  "addOrder BUY 0 0 (Finite (- 5)) initMarket =
     Inr (stateAfter [AddOrder BUY 0 0 (Finite (- 5))] initMarket, None) \<and>
   globalOrderId (stateAfter [AddOrder BUY 0 0 (Finite (- 5))] initMarket) = 1 \<and>
   count (buy (orderBooks (stateAfter [AddOrder BUY 0 0 (Finite (- 5))] initMarket) 0)) = 1 \<and>
   active (buy (orderBooks (stateAfter [AddOrder BUY 0 0 (Finite (- 5))] initMarket) 0)) 0 \<and>
   quantity (buy (orderBooks (stateAfter [AddOrder BUY 0 0 (Finite (- 5))] initMarket) 0)) 0 = 0 \<and>
   price (buy (orderBooks (stateAfter [AddOrder BUY 0 0 (Finite (- 5))] initMarket) 0)) 0
     = Finite (- 5)"
  by (simp add: eval_defs)

text \<open>
  C8, amended. \<open>addOrder\<close> validates neither the quantity nor the price: for a valid
  ticker and a side whose counter is within the array bounds, every submission, whatever
  its quantity and price, consumes an order id, increments the counter of the side, and
  writes the id, the quantity and the price into the slot at the old counter value and
  activates it; nothing is printed.
\<close>

theorem addOrder_stores_any_order:
  assumes "valid_ticker t" and "in_bounds (sint (count (side ty (orderBooks m t))))"
  shows "\<exists>m'. addOrder ty t q p m = Inr (m', None) \<and>
           globalOrderId m' = globalOrderId m + 1 \<and>
           count (side ty (orderBooks m' t)) = count (side ty (orderBooks m t)) + 1 \<and>
           orderId (side ty (orderBooks m' t)) (sint (count (side ty (orderBooks m t))))
             = globalOrderId m \<and>
           quantity (side ty (orderBooks m' t)) (sint (count (side ty (orderBooks m t)))) = q \<and>
           price (side ty (orderBooks m' t)) (sint (count (side ty (orderBooks m t)))) = p \<and>
           active (side ty (orderBooks m' t)) (sint (count (side ty (orderBooks m t))))"
  unfolding addOrder_stored [OF assms] by (simp add: side_setSide)

theorem addOrder_stores_any_order_witness:
  "valid_ticker 0 \<and> in_bounds (sint (count (side SELL (orderBooks initMarket 0)))) \<and>
   (\<exists>m'. addOrder SELL 0 (- 3) NaN initMarket = Inr (m', None) \<and>
         globalOrderId m' = 1 \<and>
         count (sell (orderBooks m' 0)) = 1 \<and>
         quantity (sell (orderBooks m' 0)) 0 = - 3 \<and>
         price (sell (orderBooks m' 0)) 0 = NaN \<and>
         active (sell (orderBooks m' 0)) 0)"
proof -
  have h: "valid_ticker 0" "in_bounds (sint (count (side SELL (orderBooks initMarket 0))))"
    by (simp_all add: eval_defs)
  have z: "sint (count (sell (orderBooks initMarket 0))) = 0"
    "globalOrderId initMarket = 0" "count (sell (orderBooks initMarket 0)) = 0"
    by (simp_all add: eval_defs)
  show ?thesis
    using addOrder_stores_any_order [OF h, of "- 3" NaN] h by (auto simp: z)
qed

section \<open>Slots only lose quantity\<close>

lemma fillOrder_slot:
  assumes "0 \<le> sint q" and "sint q \<le> sint (quantity sd k)"
  shows "sint (quantity (fillOrder sd k q) i) \<le> sint (quantity sd i)"
    and "active (fillOrder sd k q) i \<longrightarrow> active sd i"
    and "published (fillOrder sd k q) i = published sd i"
  using sint_sub_no_wrap [OF assms]
  by (auto simp: fillOrder_quantity fillOrder_active fillOrder_rest published_def assms(1))

lemma smin_bounds:
  assumes "0 < sint a" and "0 < sint b"
  shows "0 \<le> sint (smin a b)" and "0 < sint (smin a b)"
    and "sint (smin a b) \<le> sint a" and "sint (smin a b) \<le> sint b"
  using assms by (simp_all add: sint_smin)

lemma published_after_increment:
  assumes "0 \<le> sint (count sd)" and "published sd i"
  shows "i < uint (count sd + 1)" and "i \<noteq> sint (count sd)"
  using assms uint_succ [OF assms(1)] sint_nonneg_uint [OF assms(1)]
  by (simp_all add: published_def)

lemma addOrder_slot:
  assumes "addOrder ty0 t0 q p m = Inr (m', ev)"
    and "published (side ty (orderBooks m t)) i"
  shows "published (side ty (orderBooks m' t)) i \<and>
         sint (quantity (side ty (orderBooks m' t)) i)
           \<le> sint (quantity (side ty (orderBooks m t)) i) \<and>
         (active (side ty (orderBooks m' t)) i \<longrightarrow> active (side ty (orderBooks m t)) i)"
proof (cases "t = t0 \<and> ty = ty0")
  case False
  from assms(1) show ?thesis
    by (cases rule: addOrder_Inr) (use False assms(2) in \<open>auto simp: side_setSide\<close>)
next
  case True
  then have pub: "published (side ty0 (orderBooks m t0)) i" using assms(2) by simp
  from assms(1) show ?thesis
  proof (cases rule: addOrder_Inr)
    case (stored sd)
    then have nn: "0 \<le> sint (count (side ty0 (orderBooks m t0)))"
      by (simp add: in_bounds_def)
    show ?thesis
      using True pub published_after_increment [OF nn pub] stored
      by (simp add: side_setSide published_def)
  next
    case (full sd)
    then have nn: "0 \<le> sint (count (side ty0 (orderBooks m t0)))"
      by (simp add: MAX_ORDERS_PER_SIDE_def)
    show ?thesis
      using True pub published_after_increment [OF nn pub] full
      by (simp add: side_setSide published_def)
  qed
qed

lemma matchOrder_slot:
  assumes "matchOrder t0 m = Inr (m', ev)"
    and "published (side ty (orderBooks m t)) i"
  shows "published (side ty (orderBooks m' t)) i \<and>
         sint (quantity (side ty (orderBooks m' t)) i)
           \<le> sint (quantity (side ty (orderBooks m t)) i) \<and>
         (active (side ty (orderBooks m' t)) i \<longrightarrow> active (side ty (orderBooks m t)) i)"
proof (cases ev)
  case None
  then have "m' = m" using assms(1) matchOrder_skip by blast
  then show ?thesis using assms(2) by simp
next
  case (Some e)
  let ?b = "buy (orderBooks m t0)" and ?s = "sell (orderBooks m t0)"
  from assms(1) [unfolded Some] obtain bi bp si sp where
    b: "selectBuy ?b = Inr (bi, bp)" and s: "selectSell ?s = Inr (si, sp)"
    and bne: "bi \<noteq> - 1" and sne: "si \<noteq> - 1"
    and m': "m' = m\<lparr>orderBooks := (orderBooks m)(t0 :=
              \<lparr> buy = fillOrder ?b bi (smin (quantity ?b bi) (quantity ?s si)),
                sell = fillOrder ?s si (smin (quantity ?b bi) (quantity ?s si)) \<rparr>)\<rparr>"
    by (rule matchOrder_trade)
  have lb: "0 < sint (quantity ?b bi)" and ls: "0 < sint (quantity ?s si)"
    using selectBuy_some(1) [OF b bne] selectSell_some(1) [OF s sne]
    by (simp_all add: candidate_def live_def)
  note sb = smin_bounds [OF lb ls]
  note fb = fillOrder_slot [OF sb(1) sb(3), of i]
  note fs = fillOrder_slot [OF sb(1) sb(4), of i]
  show ?thesis
  proof (cases "t = t0")
    case False
    then show ?thesis using assms(2) by (simp add: m')
  next
    case True
    show ?thesis
    proof (cases ty)
      case BUY
      then show ?thesis using True assms(2) fb by (simp add: m')
    next
      case SELL
      then show ?thesis using True assms(2) fs by (simp add: m')
    qed
  qed
qed

lemma step_slot:
  assumes "step x m = Inr (m', ev)"
    and "published (side ty (orderBooks m t)) i"
  shows "published (side ty (orderBooks m' t)) i \<and>
         sint (quantity (side ty (orderBooks m' t)) i)
           \<le> sint (quantity (side ty (orderBooks m t)) i) \<and>
         (active (side ty (orderBooks m' t)) i \<longrightarrow> active (side ty (orderBooks m t)) i)"
  using assms by (cases x) (simp_all add: addOrder_slot matchOrder_slot)

lemma run_Cons_Inr:
  assumes "run (x # xs) m = Inr (m', evs)"
  obtains m1 ev evs1 where "step x m = Inr (m1, ev)" "run xs m1 = Inr (m', evs1)"
    "evs = (case ev of None \<Rightarrow> [] | Some e \<Rightarrow> [e]) @ evs1"
  using assms by (auto split: sum.splits)

text \<open>
  Along every sequence of \<open>addOrder\<close> and \<open>matchOrder\<close> calls that stays inside the
  arrays, a slot that is published at some point stays published, its quantity at any
  later point is less than or equal to its quantity at that point, and it is active
  later only if it was active at that point. The start \<open>m\<close> is any state, so the two
  points can be any two points of a run.
\<close>

lemma slot_quantity_monotone:
  assumes "run ops m = Inr (m', evs)"
    and "published (side ty (orderBooks m t)) i"
  shows "published (side ty (orderBooks m' t)) i \<and>
         sint (quantity (side ty (orderBooks m' t)) i)
           \<le> sint (quantity (side ty (orderBooks m t)) i) \<and>
         (active (side ty (orderBooks m' t)) i \<longrightarrow> active (side ty (orderBooks m t)) i)"
  using assms
proof (induction ops arbitrary: m evs)
  case Nil
  then show ?case by simp
next
  case (Cons x xs)
  from Cons.prems(1) obtain m1 ev evs1 where
    st: "step x m = Inr (m1, ev)" and rn: "run xs m1 = Inr (m', evs1)"
    by (rule run_Cons_Inr)
  note one = step_slot [OF st Cons.prems(2)]
  note rest = Cons.IH [OF rn conjunct1 [OF one]]
  show ?case using one rest by auto
qed

lemma partialBook_run:
  "run [MatchOrder 0, AddOrder SELL 0 5 (Finite 95), MatchOrder 0] partialBook =
     Inr (stateAfter [MatchOrder 0, AddOrder SELL 0 5 (Finite 95), MatchOrder 0] partialBook,
          eventsOf [MatchOrder 0, AddOrder SELL 0 5 (Finite 95), MatchOrder 0] partialBook)"
  by (simp add: partialBook_def eval_defs)

lemma partialBook_slot:
  "published (side SELL (orderBooks partialBook 0)) 0"
  "sint (quantity (side SELL (orderBooks partialBook 0)) 0) = 50"
  "active (side SELL (orderBooks partialBook 0)) 0"
  "sint (quantity (side SELL (orderBooks
     (stateAfter [MatchOrder 0, AddOrder SELL 0 5 (Finite 95), MatchOrder 0] partialBook) 0)) 0) = 20"
  by (simp_all add: partialBook_def published_def eval_defs)

lemma slot_quantity_monotone_witness:
  "published (side SELL (orderBooks partialBook 0)) 0 \<and>
   published (side SELL (orderBooks
     (stateAfter [MatchOrder 0, AddOrder SELL 0 5 (Finite 95), MatchOrder 0] partialBook) 0)) 0 \<and>
   sint (quantity (side SELL (orderBooks
     (stateAfter [MatchOrder 0, AddOrder SELL 0 5 (Finite 95), MatchOrder 0] partialBook) 0)) 0)
     \<le> 50"
  using slot_quantity_monotone [OF partialBook_run partialBook_slot(1)] partialBook_slot(1,2)
  by simp

section \<open>Accounting of quantities\<close>

lemma sum_change_one:
  fixes f g :: "int \<Rightarrow> int"
  assumes "finite S" and "k \<in> S" and "\<And>i. i \<in> S \<Longrightarrow> i \<noteq> k \<Longrightarrow> g i = f i"
  shows "sum g S = sum f S - f k + g k"
proof -
  have "sum g S = g k + sum g (S - {k})" by (rule sum.remove [OF assms(1,2)])
  moreover have "sum f S = f k + sum f (S - {k})" by (rule sum.remove [OF assms(1,2)])
  moreover have "sum g (S - {k}) = sum f (S - {k})"
    by (rule sum.cong) (use assms(3) in auto)
  ultimately show ?thesis by simp
qed

lemma remaining_change:
  assumes "in_bounds k"
    and "\<And>i. i \<noteq> k \<Longrightarrow> active sd' i = active sd i \<and> quantity sd' i = quantity sd i"
  shows "remaining sd' =
           remaining sd - (if active sd k then sint (quantity sd k) else 0)
                        + (if active sd' k then sint (quantity sd' k) else 0)"
  unfolding remaining_def
  using sum_change_one [of "{0..<MAX_ORDERS_PER_SIDE}" k
          "\<lambda>i. if active sd' i then sint (quantity sd' i) else 0"
          "\<lambda>i. if active sd i then sint (quantity sd i) else 0"] assms
  by (simp add: in_bounds_def)

lemma remaining_same:
  assumes "active sd' = active sd" and "quantity sd' = quantity sd"
  shows "remaining sd' = remaining sd"
  unfolding remaining_def assms by (rule refl)

lemma remaining_fill:
  assumes "in_bounds k" and "active sd k" and "0 \<le> sint q" and "sint q \<le> sint (quantity sd k)"
  shows "remaining (fillOrder sd k q) = remaining sd - sint q"
proof -
  have d: "sint (quantity sd k - q) = sint (quantity sd k) - sint q"
    using assms(3,4) by (rule sint_sub_no_wrap)
  have z: "quantity sd k - q = 0 \<Longrightarrow> sint (quantity sd k) - sint q = 0"
    using d by simp
  have "remaining (fillOrder sd k q) =
          remaining sd - (if active sd k then sint (quantity sd k) else 0)
            + (if active (fillOrder sd k q) k then sint (quantity (fillOrder sd k q) k) else 0)"
    by (rule remaining_change [OF assms(1)])
       (simp add: fillOrder_quantity fillOrder_active)
  then show ?thesis
    using assms(2) d z by (simp add: fillOrder_quantity fillOrder_active)
qed

lemma sideOk_fill: "sideOk sd \<Longrightarrow> sideOk (fillOrder sd k q)"
  by (auto simp: sideOk_def fillOrder_active fillOrder_rest split: if_splits)

lemma sideOk_free:
  assumes "sideOk sd" and "in_bounds (sint (count sd))"
  shows "\<not> active sd (sint (count sd))"
proof -
  have "sint (count sd) = uint (count sd)"
    using assms(2) by (intro sint_nonneg_uint) (simp add: in_bounds_def)
  then show ?thesis using assms by (auto simp: sideOk_def)
qed

lemma sideOk_increment:
  assumes "sideOk sd" and "0 \<le> sint (count sd)"
    and "\<And>i. i \<noteq> sint (count sd) \<Longrightarrow> active sd' i = active sd i"
    and "count sd' = count sd + 1"
  shows "sideOk sd'"
  unfolding sideOk_def
proof (intro allI impI)
  fix i assume i: "in_bounds i \<and> active sd' i"
  show "i < uint (count sd')"
  proof (cases "i = sint (count sd)")
    case True
    then show ?thesis
      using uint_succ [OF assms(2)] sint_nonneg_uint [OF assms(2)] assms(4) by simp
  next
    case False
    then have "i < uint (count sd)" using i assms(1,3) by (simp add: sideOk_def)
    then show ?thesis using uint_succ [OF assms(2)] assms(4) by simp
  qed
qed

lemma marketOk_side: "marketOk m = (\<forall>ty t. sideOk (side ty (orderBooks m t)))"
proof
  assume h: "marketOk m"
  show "\<forall>ty t. sideOk (side ty (orderBooks m t))"
  proof (intro allI)
    fix ty t show "sideOk (side ty (orderBooks m t))"
      using h by (cases ty) (simp_all add: marketOk_def)
  qed
next
  assume h: "\<forall>ty t. sideOk (side ty (orderBooks m t))"
  show "marketOk m"
    unfolding marketOk_def
  proof (intro allI conjI)
    fix t
    show "sideOk (buy (orderBooks m t))" using h [rule_format, of BUY t] by simp
    show "sideOk (sell (orderBooks m t))" using h [rule_format, of SELL t] by simp
  qed
qed

lemma remainingQty_side:
  "remainingQty t m = remaining (side BUY (orderBooks m t)) + remaining (side SELL (orderBooks m t))"
  by (simp add: remainingQty_def)

lemma tradedQty_append: "tradedQty t (xs @ ys) = tradedQty t xs + tradedQty t ys"
proof (induction xs)
  case Nil
  then show ?case by simp
next
  case (Cons e es)
  then show ?case by (cases e) simp_all
qed

lemma bookFullCount_append: "bookFullCount t (xs @ ys) = bookFullCount t xs + bookFullCount t ys"
proof (induction xs)
  case Nil
  then show ?case by simp
next
  case (Cons e es)
  then show ?case by (cases e) simp_all
qed

lemma submittedQty_Cons: "submittedQty t (x # xs) = submittedQty t [x] + submittedQty t xs"
  by (cases x) simp_all

lemma bookFullCount_bookFull:
  "bookFullCount t [bookFull ty t0] = (if t0 = t then 1 else 0)"
  by (cases ty) simp_all

lemma tradedQty_bookFull: "tradedQty t [bookFull ty t0] = 0"
  by (cases ty) simp_all

text \<open>The effect of one \<open>addOrder\<close> on the quantity left in one side.\<close>

lemma addOrder_account:
  assumes ok: "marketOk m" and a: "addOrder ty0 t0 q p m = Inr (m', ev)"
  shows "marketOk m'"
    and "remaining (side ty (orderBooks m' t)) =
           remaining (side ty (orderBooks m t))
             + (if ty = ty0 \<and> t = t0 \<and> ev = None then sint q else 0)"
    and "ev = None \<or> ev = Some (bookFull ty0 t0)"
proof -
  let ?sd = "side ty0 (orderBooks m t0)"
  have oks: "sideOk ?sd" using ok by (simp add: marketOk_side)
  from a have "marketOk m' \<and>
      remaining (side ty (orderBooks m' t)) =
        remaining (side ty (orderBooks m t))
          + (if ty = ty0 \<and> t = t0 \<and> ev = None then sint q else 0) \<and>
      (ev = None \<or> ev = Some (bookFull ty0 t0))"
  proof (cases rule: addOrder_Inr)
    case (stored sd)
    have nn: "0 \<le> sint (count ?sd)" using stored(2) by (simp add: in_bounds_def)
    have free: "\<not> active ?sd (sint (count ?sd))" by (rule sideOk_free [OF oks stored(2)])
    have oksd: "sideOk sd"
      by (rule sideOk_increment [OF oks nn]) (simp_all add: stored(4))
    have r: "remaining sd = remaining ?sd + sint q"
      using remaining_change [OF stored(2), of sd ?sd] free by (simp add: stored(4))
    have m: "marketOk m'"
      unfolding marketOk_side using ok oksd
      by (auto simp: stored(5) side_setSide marketOk_side)
    show ?thesis using m r stored(3) by (simp add: stored(5) side_setSide)
  next
    case (full sd)
    have nn: "0 \<le> sint (count ?sd)" using full(2) by (simp add: MAX_ORDERS_PER_SIDE_def)
    have oksd: "sideOk sd"
      by (rule sideOk_increment [OF oks nn]) (simp_all add: full(4))
    have r: "remaining sd = remaining ?sd" by (rule remaining_same) (simp_all add: full(4))
    have m: "marketOk m'"
      unfolding marketOk_side using ok oksd
      by (auto simp: full(5) side_setSide marketOk_side)
    show ?thesis using m r full(3) by (simp add: full(5) side_setSide)
  qed
  then show "marketOk m'"
    and "remaining (side ty (orderBooks m' t)) =
           remaining (side ty (orderBooks m t))
             + (if ty = ty0 \<and> t = t0 \<and> ev = None then sint q else 0)"
    and "ev = None \<or> ev = Some (bookFull ty0 t0)"
    by simp_all
qed

text \<open>The effect of one \<open>matchOrder\<close>: a trade takes its quantity out of both sides.\<close>

lemma matchOrder_account:
  assumes ok: "marketOk m" and a: "matchOrder t0 m = Inr (m', ev)"
  shows "marketOk m'"
    and "remainingQty t m' + 2 * tradedQty t (case ev of None \<Rightarrow> [] | Some e \<Rightarrow> [e])
           = remainingQty t m"
    and "0 \<le> tradedQty t (case ev of None \<Rightarrow> [] | Some e \<Rightarrow> [e])"
    and "bookFullCount t (case ev of None \<Rightarrow> [] | Some e \<Rightarrow> [e]) = 0"
proof -
  have "marketOk m' \<and>
        remainingQty t m' + 2 * tradedQty t (case ev of None \<Rightarrow> [] | Some e \<Rightarrow> [e])
           = remainingQty t m \<and>
        0 \<le> tradedQty t (case ev of None \<Rightarrow> [] | Some e \<Rightarrow> [e]) \<and>
        bookFullCount t (case ev of None \<Rightarrow> [] | Some e \<Rightarrow> [e]) = 0"
  proof (cases ev)
    case None
    then have "m' = m" using a matchOrder_skip by blast
    then show ?thesis using ok None by simp
  next
    case (Some e)
    let ?b = "buy (orderBooks m t0)" and ?s = "sell (orderBooks m t0)"
    let ?q = "smin (quantity ?b bi) (quantity ?s si)"
    from a [unfolded Some] obtain bi bp si sp where
      b: "selectBuy ?b = Inr (bi, bp)" and s: "selectSell ?s = Inr (si, sp)"
      and bne: "bi \<noteq> - 1" and sne: "si \<noteq> - 1"
      and e: "e = TradeExecuted t0 (smin (quantity ?b bi) (quantity ?s si))
                     sp (orderId ?b bi) (orderId ?s si)"
      and m': "m' = m\<lparr>orderBooks := (orderBooks m)(t0 :=
                \<lparr> buy = fillOrder ?b bi (smin (quantity ?b bi) (quantity ?s si)),
                  sell = fillOrder ?s si (smin (quantity ?b bi) (quantity ?s si)) \<rparr>)\<rparr>"
      by (rule matchOrder_trade)
    have bb: "selectBuy ?b = Inr (bi, bp) \<Longrightarrow> sint (count ?b) \<le> MAX_ORDERS_PER_SIDE"
      by (rule selectBuy_bounded)
    have sb': "selectSell ?s = Inr (si, sp) \<Longrightarrow> sint (count ?s) \<le> MAX_ORDERS_PER_SIDE"
      by (rule selectSell_bounded)
    have cb: "candidate ?b bi" and cs: "candidate ?s si"
      using selectBuy_some(1) [OF b bne] selectSell_some(1) [OF s sne] by simp_all
    have ib: "in_bounds bi" using cb bb [OF b] by (simp add: candidate_def in_bounds_def)
    have ibs: "in_bounds si" using cs sb' [OF s] by (simp add: candidate_def in_bounds_def)
    have lb: "0 < sint (quantity ?b bi)" and ls: "0 < sint (quantity ?s si)"
      and ab: "active ?b bi" and acs: "active ?s si"
      using cb cs by (simp_all add: candidate_def live_def)
    note mb = smin_bounds [OF lb ls]
    have rb: "remaining (fillOrder ?b bi (smin (quantity ?b bi) (quantity ?s si))) =
                remaining ?b - sint (smin (quantity ?b bi) (quantity ?s si))"
      by (rule remaining_fill [OF ib ab mb(1) mb(3)])
    have rs: "remaining (fillOrder ?s si (smin (quantity ?b bi) (quantity ?s si))) =
                remaining ?s - sint (smin (quantity ?b bi) (quantity ?s si))"
      by (rule remaining_fill [OF ibs acs mb(1) mb(4)])
    have m: "marketOk m'"
      using ok by (auto simp: marketOk_def m' sideOk_fill)
    have acc: "remainingQty t m' + 2 * tradedQty t [e] = remainingQty t m"
      using rb rs by (cases "t0 = t") (simp_all add: remainingQty_def m' e)
    have pos: "0 \<le> tradedQty t [e]" using mb(1) by (cases "t0 = t") (simp_all add: e)
    show ?thesis using m acc pos Some by (simp add: e)
  qed
  then show "marketOk m'"
    and "remainingQty t m' + 2 * tradedQty t (case ev of None \<Rightarrow> [] | Some e \<Rightarrow> [e])
           = remainingQty t m"
    and "0 \<le> tradedQty t (case ev of None \<Rightarrow> [] | Some e \<Rightarrow> [e])"
    and "bookFullCount t (case ev of None \<Rightarrow> [] | Some e \<Rightarrow> [e]) = 0"
    by simp_all
qed

lemma step_account:
  assumes ok: "marketOk m" and st: "step x m = Inr (m', ev)"
  shows "marketOk m' \<and>
         0 \<le> tradedQty t (case ev of None \<Rightarrow> [] | Some e \<Rightarrow> [e]) \<and>
         (\<exists>R. remainingQty t m' + 2 * tradedQty t (case ev of None \<Rightarrow> [] | Some e \<Rightarrow> [e]) + R
                 = remainingQty t m + submittedQty t [x] \<and>
              (nonNegative x \<longrightarrow> 0 \<le> R) \<and>
              (bookFullCount t (case ev of None \<Rightarrow> [] | Some e \<Rightarrow> [e]) = 0 \<longrightarrow> R = 0))"
proof (cases x)
  case (MatchOrder t0)
  then have a: "matchOrder t0 m = Inr (m', ev)" using st by simp
  show ?thesis
    using matchOrder_account [OF ok a] MatchOrder by simp
next
  case (AddOrder ty0 t0 q p)
  then have a: "addOrder ty0 t0 q p m = Inr (m', ev)" using st by simp
  note acc = addOrder_account [OF ok a]
  have rq: "remainingQty t m' =
              remainingQty t m + (if t = t0 \<and> ev = None then sint q else 0)"
    unfolding remainingQty_side acc(2) by (cases ty0) simp_all
  show ?thesis
  proof (cases "ev = None")
    case True
    then show ?thesis using acc(1) rq AddOrder by auto
  next
    case False
    then have ev: "ev = Some (bookFull ty0 t0)" using acc(3) by blast
    have "remainingQty t m' + 2 * tradedQty t [bookFull ty0 t0]
            + (if t0 = t then sint q else 0)
          = remainingQty t m + submittedQty t [x]"
      using rq ev AddOrder by (simp add: tradedQty_bookFull)
    moreover have "nonNegative x \<longrightarrow> 0 \<le> (if t0 = t then sint q else 0)"
      using AddOrder by simp
    moreover have "bookFullCount t [bookFull ty0 t0] = 0 \<longrightarrow> (if t0 = t then sint q else 0) = 0"
      by (simp add: bookFullCount_bookFull)
    ultimately show ?thesis using acc(1) ev by (auto simp: tradedQty_bookFull)
  qed
qed

lemma run_account:
  assumes "marketOk m" and "run ops m = Inr (m', evs)"
  shows "marketOk m' \<and> 0 \<le> tradedQty t evs \<and>
         (\<exists>R. remainingQty t m' + 2 * tradedQty t evs + R
                 = remainingQty t m + submittedQty t ops \<and>
              (list_all nonNegative ops \<longrightarrow> 0 \<le> R) \<and>
              (bookFullCount t evs = 0 \<longrightarrow> R = 0))"
  using assms
proof (induction ops arbitrary: m evs)
  case Nil
  then show ?case by simp
next
  case (Cons x xs)
  from Cons.prems(2) obtain m1 ev evs1 where
    st: "step x m = Inr (m1, ev)" and rn: "run xs m1 = Inr (m', evs1)"
    and evs: "evs = (case ev of None \<Rightarrow> [] | Some e \<Rightarrow> [e]) @ evs1"
    by (rule run_Cons_Inr)
  let ?e = "case ev of None \<Rightarrow> [] | Some e \<Rightarrow> [e]"
  note s1 = step_account [OF Cons.prems(1) st, of t]
  have ok1: "marketOk m1" and t1: "0 \<le> tradedQty t ?e"
    using s1 by simp_all
  from conjunct2 [OF conjunct2 [OF s1]] obtain R1 where
    a1: "remainingQty t m1 + 2 * tradedQty t ?e + R1
               = remainingQty t m + submittedQty t [x]"
    and n1: "nonNegative x \<longrightarrow> 0 \<le> R1"
    and f1: "bookFullCount t ?e = 0 \<longrightarrow> R1 = 0"
    by (elim exE conjE)
  note s2 = Cons.IH [OF ok1 rn]
  have ok2: "marketOk m'" and t2: "0 \<le> tradedQty t evs1"
    using s2 by simp_all
  from conjunct2 [OF conjunct2 [OF s2]] obtain R2 where
    a2: "remainingQty t m' + 2 * tradedQty t evs1 + R2
               = remainingQty t m1 + submittedQty t xs"
    and n2: "list_all nonNegative xs \<longrightarrow> 0 \<le> R2"
    and f2: "bookFullCount t evs1 = 0 \<longrightarrow> R2 = 0"
    by (elim exE conjE)
  have c1: "remainingQty t m' + 2 * tradedQty t evs + (R1 + R2)
          = remainingQty t m + submittedQty t (x # xs)"
    using a1 a2 by (simp add: evs tradedQty_append submittedQty_Cons [of t x xs])
  have c2: "list_all nonNegative (x # xs) \<longrightarrow> 0 \<le> R1 + R2"
    using n1 n2 by simp
  have c3: "bookFullCount t evs = 0 \<longrightarrow> R1 + R2 = 0"
    using f1 f2 by (simp add: evs bookFullCount_append)
  have c4: "0 \<le> tradedQty t evs" using t1 t2 by (simp add: evs tradedQty_append)
  show ?case by (intro conjI exI [of _ "R1 + R2"]) (fact ok2 c4 c1 c2 c3)+
qed

lemma initMarket_ok: "marketOk initMarket" "remainingQty t initMarket = 0"
  by (simp_all add: marketOk_def sideOk_def remainingQty_def remaining_def
        initMarket_def emptySide_def)

lemma fullFill_run:
  "run [AddOrder BUY 0 50 (Finite 100), AddOrder SELL 0 50 (Finite 90), MatchOrder 0] initMarket =
     Inr (stateAfter [MatchOrder 0] crossedBook, [TradeExecuted 0 50 (Finite 90) 0 1])"
  by (simp add: crossedBook_def eval_defs)

text \<open>
  C7, as stated, at the first scenario of the specification (buy 50 at 100, sell 50 at
  90, one matching cycle): nothing was rejected, 50 was traded, nothing remains, and 100
  was submitted, so traded plus remaining is not the submitted quantity.
\<close>

theorem quantity_conservation_counterexample:
  "run [AddOrder BUY 0 50 (Finite 100), AddOrder SELL 0 50 (Finite 90), MatchOrder 0] initMarket =
     Inr (stateAfter [MatchOrder 0] crossedBook, [TradeExecuted 0 50 (Finite 90) 0 1]) \<and>
   bookFullCount 0 [TradeExecuted 0 50 (Finite 90) 0 1] = 0 \<and>
   tradedQty 0 [TradeExecuted 0 50 (Finite 90) 0 1] = 50 \<and>
   remainingQty 0 (stateAfter [MatchOrder 0] crossedBook) = 0 \<and>
   submittedQty 0 [AddOrder BUY 0 50 (Finite 100), AddOrder SELL 0 50 (Finite 90), MatchOrder 0]
     = 100 \<and>
   tradedQty 0 [TradeExecuted 0 50 (Finite 90) 0 1]
     + remainingQty 0 (stateAfter [MatchOrder 0] crossedBook)
     \<noteq> submittedQty 0
         [AddOrder BUY 0 50 (Finite 100), AddOrder SELL 0 50 (Finite 90), MatchOrder 0]"
proof -
  have r: "remainingQty 0 (stateAfter [MatchOrder 0] crossedBook) = 0"
    using run_account [OF initMarket_ok(1) fullFill_run, of 0]
    by (simp add: initMarket_ok(2))
  show ?thesis using fullFill_run r by simp
qed

text \<open>
  C7, amended. For every sequence of submissions and matching cycles, started on the
  empty market, that stays inside the arrays, and for every ticker: if all submitted
  quantities are non-negative, the traded quantity plus the quantity remaining in
  active orders on both sides is at most the submitted quantity; if no submission to the
  ticker was rejected for a full book, twice the traded quantity plus the remaining
  quantity equals the submitted quantity (a trade fills a buy and a sell order), so
  traded plus remaining equals submitted exactly when nothing has been traded.
\<close>

theorem quantity_conservation:
  assumes "run ops initMarket = Inr (m, evs)"
  shows "(list_all nonNegative ops \<longrightarrow>
            tradedQty t evs + remainingQty t m \<le> submittedQty t ops) \<and>
         (bookFullCount t evs = 0 \<longrightarrow>
            2 * tradedQty t evs + remainingQty t m = submittedQty t ops) \<and>
         (bookFullCount t evs = 0 \<longrightarrow>
            (tradedQty t evs + remainingQty t m = submittedQty t ops) = (tradedQty t evs = 0))"
proof -
  note acc = run_account [OF initMarket_ok(1) assms, of t]
  have tr: "0 \<le> tradedQty t evs" using acc by simp
  from conjunct2 [OF conjunct2 [OF acc]] obtain R where
    a: "remainingQty t m + 2 * tradedQty t evs + R = submittedQty t ops"
    and n: "list_all nonNegative ops \<longrightarrow> 0 \<le> R"
    and f: "bookFullCount t evs = 0 \<longrightarrow> R = 0"
    unfolding initMarket_ok(2) by (elim exE conjE) simp
  show ?thesis using tr a n f by auto
qed

lemma partialFill_run:
  "run [AddOrder BUY 0 30 (Finite 100), AddOrder SELL 0 50 (Finite 90), MatchOrder 0] initMarket =
     Inr (stateAfter [MatchOrder 0] partialBook, [TradeExecuted 0 30 (Finite 90) 0 1])"
  by (simp add: partialBook_def eval_defs)

theorem quantity_conservation_witness:
  "run [AddOrder BUY 0 30 (Finite 100), AddOrder SELL 0 50 (Finite 90), MatchOrder 0] initMarket =
     Inr (stateAfter [MatchOrder 0] partialBook, [TradeExecuted 0 30 (Finite 90) 0 1]) \<and>
   list_all nonNegative
     [AddOrder BUY 0 30 (Finite 100), AddOrder SELL 0 50 (Finite 90), MatchOrder 0] \<and>
   bookFullCount 0 [TradeExecuted 0 30 (Finite 90) 0 1] = 0 \<and>
   remainingQty 0 (stateAfter [MatchOrder 0] partialBook) = 20 \<and>
   tradedQty 0 [TradeExecuted 0 30 (Finite 90) 0 1]
     + remainingQty 0 (stateAfter [MatchOrder 0] partialBook) \<le> 80"
  using quantity_conservation [OF partialFill_run, of 0] partialFill_run by simp

section \<open>The capacity of a side\<close>

lemma allActive_increment:
  assumes "allActive sd" and "0 \<le> sint (count sd)"
    and "count sd' = count sd + 1"
    and "\<And>i. i \<noteq> sint (count sd) \<Longrightarrow> active sd' i = active sd i"
    and "in_bounds (sint (count sd)) \<Longrightarrow> active sd' (sint (count sd))"
  shows "allActive sd'"
  unfolding allActive_def
proof (intro allI impI)
  fix i assume i: "in_bounds i \<and> i < uint (count sd')"
  then have le: "i \<le> uint (count sd)" using uint_succ [OF assms(2)] assms(3) by simp
  show "active sd' i"
  proof (cases "i = sint (count sd)")
    case True
    then show ?thesis using i assms(5) by simp
  next
    case False
    then have "i < uint (count sd)" using le sint_nonneg_uint [OF assms(2)] by simp
    then show ?thesis using False i assms(1,4) by (simp add: allActive_def)
  qed
qed

text \<open>One submission while the counter of its side is below \<open>2^31\<close>.\<close>

lemma addOrder_counts:
  assumes vt: "valid_ticker t0"
    and lt: "uint (count (side ty0 (orderBooks m t0))) < 2 ^ 31"
    and aa: "\<forall>ty t. allActive (side ty (orderBooks m t))"
  shows "\<exists>m' ev. addOrder ty0 t0 q p m = Inr (m', ev) \<and>
           (\<forall>ty t. uint (count (side ty (orderBooks m' t))) =
                     uint (count (side ty (orderBooks m t)))
                       + (if ty = ty0 \<and> t = t0 then 1 else 0)) \<and>
           (\<forall>ty t. allActive (side ty (orderBooks m' t)))"
proof -
  let ?sd = "side ty0 (orderBooks m t0)"
  have su: "sint (count ?sd) = uint (count ?sd)" by (rule uint_below_sint [OF lt])
  then have nn: "0 \<le> sint (count ?sd)" by simp
  note up = uint_succ [OF nn]
  show ?thesis
  proof (cases "sint (count ?sd) < MAX_ORDERS_PER_SIDE")
    case True
    then have ib: "in_bounds (sint (count ?sd))" using nn by (simp add: in_bounds_def)
    let ?sd' = "?sd\<lparr>count := count ?sd + 1,
                     orderId := (orderId ?sd)(sint (count ?sd) := globalOrderId m),
                     quantity := (quantity ?sd)(sint (count ?sd) := q),
                     price := (price ?sd)(sint (count ?sd) := p),
                     active := (active ?sd)(sint (count ?sd) := True)\<rparr>"
    have a: "allActive ?sd'"
      by (rule allActive_increment [OF aa [rule_format] nn]) simp_all
    show ?thesis
      unfolding addOrder_stored [OF vt ib]
      using up a aa by (auto simp: side_setSide)
  next
    case False
    then have fl: "MAX_ORDERS_PER_SIDE \<le> sint (count ?sd)" by simp
    let ?sd' = "?sd\<lparr>count := count ?sd + 1\<rparr>"
    have a: "allActive ?sd'"
      by (rule allActive_increment [OF aa [rule_format] nn])
         (use fl in \<open>simp_all add: in_bounds_def\<close>)
    show ?thesis
      unfolding addOrder_full [OF vt fl]
      using up a aa by (auto simp: side_setSide)
  qed
qed

lemma isSubmission_cases:
  assumes "isSubmission x"
  obtains ty0 t0 q p where "x = AddOrder ty0 t0 q p" "valid_ticker t0"
  using assms by (cases x) simp_all

text \<open>
  A sequence of submissions that brings no counter above \<open>2^31\<close> stays inside the arrays,
  and each counter then holds the number of submissions made to its side.
\<close>

lemma submissions_run:
  assumes "list_all isSubmission ops"
    and "\<forall>ty t. uint (count (side ty (orderBooks m t)))
                   + int (length (filter (submitsTo ty t) ops)) \<le> 2 ^ 31"
    and "\<forall>ty t. allActive (side ty (orderBooks m t))"
  shows "\<exists>m' evs. run ops m = Inr (m', evs) \<and>
           (\<forall>ty t. uint (count (side ty (orderBooks m' t))) =
                     uint (count (side ty (orderBooks m t)))
                       + int (length (filter (submitsTo ty t) ops))) \<and>
           (\<forall>ty t. allActive (side ty (orderBooks m' t)))"
  using assms
proof (induction ops arbitrary: m)
  case Nil
  then show ?case by simp
next
  case (Cons x xs)
  from Cons.prems(1) have "isSubmission x" by simp
  then obtain ty0 t0 q p where x: "x = AddOrder ty0 t0 q p" and vt: "valid_ticker t0"
    by (rule isSubmission_cases)
  have "uint (count (side ty0 (orderBooks m t0)))
          + int (length (filter (submitsTo ty0 t0) (x # xs))) \<le> 2 ^ 31"
    using Cons.prems(2) by blast
  then have lt: "uint (count (side ty0 (orderBooks m t0))) < 2 ^ 31" by (simp add: x)
  from addOrder_counts [OF vt lt Cons.prems(3), of q p] obtain m1 ev where
    a: "addOrder ty0 t0 q p m = Inr (m1, ev)"
    and c1: "\<forall>ty t. uint (count (side ty (orderBooks m1 t))) =
                     uint (count (side ty (orderBooks m t)))
                       + (if ty = ty0 \<and> t = t0 then 1 else 0)"
    and a1: "\<forall>ty t. allActive (side ty (orderBooks m1 t))"
    by blast
  have len: "int (length (filter (submitsTo ty t) (x # xs))) =
               (if ty = ty0 \<and> t = t0 then 1 else 0)
                 + int (length (filter (submitsTo ty t) xs))" for ty t
    by (auto simp: x)
  have b1: "\<forall>ty t. uint (count (side ty (orderBooks m1 t)))
                   + int (length (filter (submitsTo ty t) xs)) \<le> 2 ^ 31"
  proof (intro allI)
    fix ty t
    have "uint (count (side ty (orderBooks m t)))
            + int (length (filter (submitsTo ty t) (x # xs))) \<le> 2 ^ 31"
      using Cons.prems(2) by blast
    then show "uint (count (side ty (orderBooks m1 t)))
                 + int (length (filter (submitsTo ty t) xs)) \<le> 2 ^ 31"
      unfolding len c1 [rule_format, of ty t] by simp
  qed
  from Cons.prems(1) have l: "list_all isSubmission xs" by simp
  from Cons.IH [OF l b1 a1] obtain m' evs where
    r: "run xs m1 = Inr (m', evs)"
    and c2: "\<forall>ty t. uint (count (side ty (orderBooks m' t))) =
                     uint (count (side ty (orderBooks m1 t)))
                       + int (length (filter (submitsTo ty t) xs))"
    and a2: "\<forall>ty t. allActive (side ty (orderBooks m' t))"
    by blast
  have c: "\<forall>ty t. uint (count (side ty (orderBooks m' t))) =
                     uint (count (side ty (orderBooks m t)))
                       + int (length (filter (submitsTo ty t) (x # xs)))"
  proof (intro allI)
    fix ty t
    show "uint (count (side ty (orderBooks m' t))) =
            uint (count (side ty (orderBooks m t)))
              + int (length (filter (submitsTo ty t) (x # xs)))"
      unfolding len c2 [rule_format, of ty t] c1 [rule_format, of ty t] by simp
  qed
  have "run (x # xs) m = Inr (m', (case ev of None \<Rightarrow> [] | Some e \<Rightarrow> [e]) @ evs)"
    using a r by (simp add: x)
  then show ?case using c a2 by blast
qed

lemma initMarket_side: "side ty (orderBooks initMarket t) = emptySide"
  by (cases ty) (simp_all add: initMarket_def)

lemma initMarket_counts:
  "uint (count (side ty (orderBooks initMarket t))) = 0"
  "allActive (side ty (orderBooks initMarket t))"
  unfolding initMarket_side by (simp_all add: emptySide_def allActive_def in_bounds_def)

text \<open>The flood of buy orders on ticker 0.\<close>

lemma floodOps_submissions: "list_all isSubmission (floodOps n)"
  by (simp add: floodOps_def list_all_iff valid_ticker_def NUM_TICKERS_def)

lemma floodOps_filter:
  "length (filter (submitsTo ty t) (floodOps n)) = (if ty = BUY \<and> t = 0 then n else 0)"
  by (induction n) (auto simp: floodOps_def)

text \<open>
  C5. The rule "after capacity-many stored submissions every further submission to the
  side is answered by book full and overwrites nothing" fails in \<open>addOrder\<close> at the
  side that received \<open>2^31\<close> buy submissions (the first 1000 stored, the others
  rejected): the sequence stays inside the arrays, and one further submission is not
  answered by "book full": the counter has wrapped to \<open>-2^31\<close>, the negative index
  passes the test \<open>idx < MAX_ORDERS_PER_SIDE\<close>, and the stores fall outside the arrays.
\<close>

theorem full_book_counter_wraps:
  "list_all isSubmission (floodOps 2147483648) \<and>
   MAX_ORDERS_PER_SIDE \<le> int (length (filter (submitsTo BUY 0) (floodOps 2147483648))) \<and>
   \<not> isl (run (floodOps 2147483648) initMarket) \<and>
   addOrder BUY 0 1 (Finite 10) (stateAfter (floodOps 2147483648) initMarket) = Inl OutOfBounds"
proof -
  let ?n = "2147483648 :: nat"
  have b: "\<forall>ty t. uint (count (side ty (orderBooks initMarket t)))
                   + int (length (filter (submitsTo ty t) (floodOps ?n))) \<le> 2 ^ 31"
    by (simp add: initMarket_counts floodOps_filter)
  have a: "\<forall>ty t. allActive (side ty (orderBooks initMarket t))"
    by (simp add: initMarket_counts)
  from submissions_run [OF floodOps_submissions b a] obtain m' evs where
    r: "run (floodOps ?n) initMarket = Inr (m', evs)"
    and c: "\<forall>ty t. uint (count (side ty (orderBooks m' t))) =
                     uint (count (side ty (orderBooks initMarket t)))
                       + int (length (filter (submitsTo ty t) (floodOps ?n)))"
    by blast
  have "uint (count (side BUY (orderBooks m' 0))) = 2147483648"
    using c [rule_format, of BUY 0] initMarket_counts(1) [of BUY 0]
    by (simp add: floodOps_filter)
  then have "word_of_int (uint (count (side BUY (orderBooks m' 0)))) = (2147483648 :: int32)"
    by simp
  then have "count (side BUY (orderBooks m' 0)) = 2147483648" by simp
  then have neg: "sint (count (side BUY (orderBooks m' 0))) < 0" by simp
  have s: "stateAfter (floodOps ?n) initMarket = m'" by (simp add: stateAfter_def r)
  have "addOrder BUY 0 1 (Finite 10) m' = Inl OutOfBounds"
    using neg by (simp add: addOrder_eval storeOrder_eval valid_ticker_def NUM_TICKERS_def)
  then show ?thesis
    using r s floodOps_submissions
    by (simp add: floodOps_filter MAX_ORDERS_PER_SIDE_def)
qed

text \<open>
  Below the wrap-around. After any sequence of submissions, started on the empty market,
  in which
  the side received at least \<open>MAX_ORDERS_PER_SIDE\<close> submissions and every side fewer than
  \<open>2^31\<close>, a further submission to the side prints "book full", increments the counter
  and leaves the four arrays of the side unchanged; all \<open>MAX_ORDERS_PER_SIDE\<close> slots of
  the side are active before and after it.
\<close>

lemma full_book_rejects:
  assumes "list_all isSubmission ops"
    and "\<forall>ty' t'. int (length (filter (submitsTo ty' t') ops)) < 2 ^ 31"
    and "MAX_ORDERS_PER_SIDE \<le> int (length (filter (submitsTo ty t) ops))"
    and "valid_ticker t"
  shows "\<exists>m evs m'. run ops initMarket = Inr (m, evs) \<and>
           addOrder ty t q p m = Inr (m', Some (bookFull ty t)) \<and>
           count (side ty (orderBooks m' t)) = count (side ty (orderBooks m t)) + 1 \<and>
           uint (count (side ty (orderBooks m' t))) = int (length (filter (submitsTo ty t) ops)) + 1 \<and>
           orderId (side ty (orderBooks m' t)) = orderId (side ty (orderBooks m t)) \<and>
           quantity (side ty (orderBooks m' t)) = quantity (side ty (orderBooks m t)) \<and>
           price (side ty (orderBooks m' t)) = price (side ty (orderBooks m t)) \<and>
           active (side ty (orderBooks m' t)) = active (side ty (orderBooks m t)) \<and>
           (\<forall>i. in_bounds i \<longrightarrow> active (side ty (orderBooks m' t)) i)"
proof -
  have b: "\<forall>ty t. uint (count (side ty (orderBooks initMarket t)))
                   + int (length (filter (submitsTo ty t) ops)) \<le> 2 ^ 31"
  proof (intro allI)
    fix ty' t'
    have "int (length (filter (submitsTo ty' t') ops)) < 2 ^ 31"
      using assms(2) by blast
    then show "uint (count (side ty' (orderBooks initMarket t')))
                 + int (length (filter (submitsTo ty' t') ops)) \<le> 2 ^ 31"
      unfolding initMarket_counts(1) by simp
  qed
  have a: "\<forall>ty t. allActive (side ty (orderBooks initMarket t))"
    by (simp add: initMarket_counts)
  from submissions_run [OF assms(1) b a] obtain m evs where
    r: "run ops initMarket = Inr (m, evs)"
    and c: "\<forall>ty t. uint (count (side ty (orderBooks m t))) =
                     uint (count (side ty (orderBooks initMarket t)))
                       + int (length (filter (submitsTo ty t) ops))"
    and al: "\<forall>ty t. allActive (side ty (orderBooks m t))"
    by blast
  let ?sd = "side ty (orderBooks m t)"
  have u: "uint (count ?sd) = int (length (filter (submitsTo ty t) ops))"
    using c [rule_format, of ty t] by (simp add: initMarket_counts)
  have lt: "uint (count ?sd) < 2 ^ 31" using u assms(2) by simp
  have su: "sint (count ?sd) = uint (count ?sd)" by (rule uint_below_sint [OF lt])
  have fl: "MAX_ORDERS_PER_SIDE \<le> sint (count ?sd)" using su u assms(3) by simp
  have nn: "0 \<le> sint (count ?sd)" using fl by (simp add: MAX_ORDERS_PER_SIDE_def)
  have act: "\<forall>i. in_bounds i \<longrightarrow> active ?sd i"
    using al [rule_format, of ty t] fl su by (auto simp: allActive_def in_bounds_def)
  let ?m' = "m\<lparr>globalOrderId := globalOrderId m + 1,
                  orderBooks := (orderBooks m)(t := setSide ty
                    (?sd\<lparr>count := count ?sd + 1\<rparr>) (orderBooks m t))\<rparr>"
  have ad: "addOrder ty t q p m = Inr (?m', Some (bookFull ty t))"
    by (rule addOrder_full [OF assms(4) fl])
  have sd': "side ty (orderBooks ?m' t) = ?sd\<lparr>count := count ?sd + 1\<rparr>"
    by (simp add: side_setSide)
  show ?thesis
    apply (rule exI [of _ m], rule exI [of _ evs], rule exI [of _ ?m'])
    apply (intro conjI)
            apply (rule r)
           apply (rule ad)
          apply (simp_all only: sd')
          apply (simp_all add: act)
    apply (simp add: uint_succ [OF nn] u)
    done
qed

lemma full_book_rejects_witness:
  "list_all isSubmission (floodOps 1200) \<and>
   MAX_ORDERS_PER_SIDE \<le> int (length (filter (submitsTo BUY 0) (floodOps 1200))) \<and>
   valid_ticker 0 \<and>
   (\<exists>m evs m'. run (floodOps 1200) initMarket = Inr (m, evs) \<and>
       addOrder BUY 0 7 (Finite 3) m = Inr (m', Some (BuyBookFull 0)) \<and>
       uint (count (buy (orderBooks m' 0))) = 1201 \<and>
       quantity (buy (orderBooks m' 0)) = quantity (buy (orderBooks m 0)) \<and>
       active (buy (orderBooks m' 0)) = active (buy (orderBooks m 0)))"
proof -
  have h2: "\<forall>ty' t'. int (length (filter (submitsTo ty' t') (floodOps 1200))) < 2 ^ 31"
    by (simp add: floodOps_filter)
  have h3: "MAX_ORDERS_PER_SIDE \<le> int (length (filter (submitsTo BUY 0) (floodOps 1200)))"
    by (simp add: floodOps_filter MAX_ORDERS_PER_SIDE_def)
  have h4: "valid_ticker 0" by (simp add: valid_ticker_def NUM_TICKERS_def)
  from full_book_rejects [OF floodOps_submissions h2 h3 h4, of 7 "Finite 3"]
  obtain m evs m' where
    "run (floodOps 1200) initMarket = Inr (m, evs)"
    "addOrder BUY 0 7 (Finite 3) m = Inr (m', Some (bookFull BUY 0))"
    "uint (count (side BUY (orderBooks m' 0))) =
       int (length (filter (submitsTo BUY 0) (floodOps 1200))) + 1"
    "quantity (side BUY (orderBooks m' 0)) = quantity (side BUY (orderBooks m 0))"
    "active (side BUY (orderBooks m' 0)) = active (side BUY (orderBooks m 0))"
    by blast
  then have "\<exists>m evs m'. run (floodOps 1200) initMarket = Inr (m, evs) \<and>
       addOrder BUY 0 7 (Finite 3) m = Inr (m', Some (BuyBookFull 0)) \<and>
       uint (count (buy (orderBooks m' 0))) = 1201 \<and>
       quantity (buy (orderBooks m' 0)) = quantity (buy (orderBooks m 0)) \<and>
       active (buy (orderBooks m' 0)) = active (buy (orderBooks m 0))"
    by (intro exI [of _ m], intro exI [of _ evs], intro exI [of _ m'])
       (simp add: floodOps_filter)
  then show ?thesis using floodOps_submissions h3 h4 by simp
qed

section \<open>Matching on an overfull side\<close>

text \<open>
  Once a counter has passed the capacity, which one rejected submission achieves, the
  scan of that side runs up to the counter and reads slot \<open>MAX_ORDERS_PER_SIDE\<close>,
  outside the arrays. The properties of \<open>matchOrder\<close> above are therefore stated for
  calls that return, or for counters within the capacity.
\<close>

lemma matchOrder_overfull:
  assumes "MAX_ORDERS_PER_SIDE < sint (count (buy (orderBooks m t))) \<or>
           MAX_ORDERS_PER_SIDE < sint (count (sell (orderBooks m t)))"
  shows "matchOrder t m = Inl OutOfBounds"
proof (rule ccontr)
  assume ne: "matchOrder t m \<noteq> Inl OutOfBounds"
  then obtain r where r: "matchOrder t m = Inr r"
    by (cases "matchOrder t m") (auto intro: error.exhaust)
  from matchOrder_Inr [OF r] obtain bi bp si sp where
    "selectBuy (buy (orderBooks m t)) = Inr (bi, bp)"
    "selectSell (sell (orderBooks m t)) = Inr (si, sp)"
    by blast
  then show False
    using selectBuy_bounded selectSell_bounded assms by fastforce
qed

section \<open>Books with an overfull side\<close>

lemma run_append:
  "run (xs @ ys) m =
     (case run xs m of
        Inl e \<Rightarrow> Inl e
      | Inr (m1, evs1) \<Rightarrow>
          (case run ys m1 of
             Inl e \<Rightarrow> Inl e
           | Inr (m2, evs2) \<Rightarrow> Inr (m2, evs1 @ evs2)))"
  by (induction xs arbitrary: m) (auto split: sum.splits)

lemma askFlood_filter:
  "length (filter (submitsTo ty t) (askFlood p n)) = (if ty = SELL \<and> t = 0 then n else 0)"
  by (induction n) (auto simp: askFlood_def)

lemma overfullOps_submissions: "list_all isSubmission (overfullOps p q)"
  by (simp add: overfullOps_def askFlood_def list_all_iff valid_ticker_def NUM_TICKERS_def)

lemma overfullOps_filter:
  "int (length (filter (submitsTo ty t) (overfullOps p q))) =
     (if t = 0 then (if ty = SELL then 1001 else 1) else 0)"
  by (cases ty) (simp_all add: overfullOps_def askFlood_filter)

lemma overfullOps_sellsAt: "list_all (sellsAt p) (overfullOps p q)"
  by (simp add: overfullOps_def askFlood_def list_all_iff)

text \<open>The 1002 submissions stay inside the arrays and leave the sell counter at 1001.\<close>

lemma overfullBook_run:
  "\<exists>evs. run (overfullOps p q) initMarket = Inr (overfullBook p q, evs)"
  and overfullBook_counts:
  "uint (count (sell (orderBooks (overfullBook p q) 0))) = 1001"
  "uint (count (buy (orderBooks (overfullBook p q) 0))) = 1"
  and overfullBook_active: "active (sell (orderBooks (overfullBook p q) 0)) 0"
proof -
  have b: "\<forall>ty t. uint (count (side ty (orderBooks initMarket t)))
                   + int (length (filter (submitsTo ty t) (overfullOps p q))) \<le> 2 ^ 31"
    unfolding initMarket_counts(1) overfullOps_filter by simp
  have a: "\<forall>ty t. allActive (side ty (orderBooks initMarket t))"
    by (simp add: initMarket_counts)
  from submissions_run [OF overfullOps_submissions b a] obtain m' evs where
    r: "run (overfullOps p q) initMarket = Inr (m', evs)"
    and c: "\<forall>ty t. uint (count (side ty (orderBooks m' t))) =
                     uint (count (side ty (orderBooks initMarket t)))
                       + int (length (filter (submitsTo ty t) (overfullOps p q)))"
    and al: "\<forall>ty t. allActive (side ty (orderBooks m' t))"
    by blast
  have s: "overfullBook p q = m'" by (simp add: overfullBook_def stateAfter_def r)
  show "\<exists>evs. run (overfullOps p q) initMarket = Inr (overfullBook p q, evs)"
    using r s by simp
  show cs: "uint (count (sell (orderBooks (overfullBook p q) 0))) = 1001"
    using c [rule_format, of SELL 0] initMarket_counts(1) [of SELL 0]
    by (simp add: s overfullOps_filter)
  show "uint (count (buy (orderBooks (overfullBook p q) 0))) = 1"
    using c [rule_format, of BUY 0] initMarket_counts(1) [of BUY 0]
    by (simp add: s overfullOps_filter)
  show "active (sell (orderBooks (overfullBook p q) 0)) 0"
    using al [rule_format, of SELL 0] cs
    by (simp add: s allActive_def in_bounds_def MAX_ORDERS_PER_SIDE_def)
qed

lemma overfullBook_sint: "sint (count (sell (orderBooks (overfullBook p q) 0))) = 1001"
proof -
  have "uint (count (sell (orderBooks (overfullBook p q) 0))) < 2 ^ 31"
    by (simp add: overfullBook_counts)
  then show ?thesis using uint_below_sint overfullBook_counts(1) by fastforce
qed

text \<open>Matching on such a book: the sell scan reaches slot 1000.\<close>

lemma overfullBook_select:
  "selectSell (sell (orderBooks (overfullBook p q) 0)) = Inl OutOfBounds"
  unfolding selectSell_def overfullBook_sint
  by (rule scanSell_overflow) (simp_all add: MAX_ORDERS_PER_SIDE_def)

lemma overfullBook_match: "matchOrder 0 (overfullBook p q) = Inl OutOfBounds"
  by (rule matchOrder_overfull) (simp add: overfullBook_sint MAX_ORDERS_PER_SIDE_def)

text \<open>Only \<open>addOrder\<close> activates a slot, and the price it stores is the submitted one.\<close>

lemma step_ask_prices:
  assumes st: "step x m = Inr (m', ev)" and sa: "sellsAt p x"
    and inv: "\<forall>t j. active (sell (orderBooks m t)) j \<longrightarrow>
                     price (sell (orderBooks m t)) j = Finite p"
  shows "\<forall>t j. active (sell (orderBooks m' t)) j \<longrightarrow>
               price (sell (orderBooks m' t)) j = Finite p"
proof (cases x)
  case (AddOrder ty0 t0 q pr)
  then have a: "addOrder ty0 t0 q pr m = Inr (m', ev)" using st by simp
  have pr: "ty0 = SELL \<Longrightarrow> pr = Finite p" using sa AddOrder by auto
  from a show ?thesis
  proof (cases rule: addOrder_Inr)
    case (stored sd)
    show ?thesis
    proof (cases ty0)
      case BUY
      then show ?thesis using inv by (auto simp: stored(5))
    next
      case SELL
      then show ?thesis using inv pr by (auto simp: stored(4,5))
    qed
  next
    case (full sd)
    show ?thesis
    proof (cases ty0)
      case BUY
      then show ?thesis using inv by (auto simp: full(5))
    next
      case SELL
      then show ?thesis using inv by (auto simp: full(4,5))
    qed
  qed
next
  case (MatchOrder t0)
  then have a: "matchOrder t0 m = Inr (m', ev)" using st by simp
  show ?thesis
  proof (cases ev)
    case None
    then have "m' = m" using a matchOrder_skip by blast
    then show ?thesis using inv by simp
  next
    case (Some e)
    from a [unfolded Some] obtain bi bp si sp where
      m': "m' = m\<lparr>orderBooks := (orderBooks m)(t0 :=
              \<lparr> buy = fillOrder (buy (orderBooks m t0)) bi
                        (smin (quantity (buy (orderBooks m t0)) bi)
                              (quantity (sell (orderBooks m t0)) si)),
                sell = fillOrder (sell (orderBooks m t0)) si
                        (smin (quantity (buy (orderBooks m t0)) bi)
                              (quantity (sell (orderBooks m t0)) si)) \<rparr>)\<rparr>"
      by (rule matchOrder_trade)
    show ?thesis
      using inv by (auto simp: m' fillOrder_active fillOrder_rest split: if_splits)
  qed
qed

lemma run_ask_prices:
  assumes "run ops m = Inr (m', evs)" and "list_all (sellsAt p) ops"
    and "\<forall>t j. active (sell (orderBooks m t)) j \<longrightarrow>
               price (sell (orderBooks m t)) j = Finite p"
  shows "\<forall>t j. active (sell (orderBooks m' t)) j \<longrightarrow>
               price (sell (orderBooks m' t)) j = Finite p"
  using assms
proof (induction ops arbitrary: m evs)
  case Nil
  then show ?case by simp
next
  case (Cons x xs)
  from Cons.prems(1) obtain m1 ev evs1 where
    st: "step x m = Inr (m1, ev)" and rn: "run xs m1 = Inr (m', evs1)"
    by (rule run_Cons_Inr)
  have sa: "sellsAt p x" and l: "list_all (sellsAt p) xs" using Cons.prems(2) by simp_all
  show ?case
    by (rule Cons.IH [OF rn l step_ask_prices [OF st sa Cons.prems(3)]])
qed

lemma overfullBook_prices:
  "active (sell (orderBooks (overfullBook p q) 0)) j \<Longrightarrow>
   price (sell (orderBooks (overfullBook p q) 0)) j = Finite p"
proof -
  obtain evs where r: "run (overfullOps p q) initMarket = Inr (overfullBook p q, evs)"
    using overfullBook_run by blast
  have i: "\<forall>t j. active (sell (orderBooks initMarket t)) j \<longrightarrow>
                 price (sell (orderBooks initMarket t)) j = Finite p"
    by (simp add: initMarket_def emptySide_def)
  show "active (sell (orderBooks (overfullBook p q) 0)) j \<Longrightarrow>
        price (sell (orderBooks (overfullBook p q) 0)) j = Finite p"
    using run_ask_prices [OF r overfullOps_sellsAt i] by blast
qed

text \<open>
  C1. The rule "the printed price is the price of the selected resting sell order"
  fails in \<open>matchOrder\<close> on a book with an overfull side. After 1001 sell submissions at
  the double that follows 90 and one buy order of 5 at 100, the sell counter is 1001,
  the sell scan runs to slot 1000 and reads outside the arrays: the call has no defined
  result, and the price that it prints need not be the price of any sell order.
\<close>

theorem overfull_book_price_undefined:
  "uint (count (sell (orderBooks (overfullBook (90 + 1 / 2 ^ 46) 5) 0))) = 1001 \<and>
   uint (count (buy (orderBooks (overfullBook (90 + 1 / 2 ^ 46) 5) 0))) = 1 \<and>
   active (sell (orderBooks (overfullBook (90 + 1 / 2 ^ 46) 5) 0)) 0 \<and>
   price (sell (orderBooks (overfullBook (90 + 1 / 2 ^ 46) 5) 0)) 0 = Finite (90 + 1 / 2 ^ 46) \<and>
   matchOrder 0 (overfullBook (90 + 1 / 2 ^ 46) 5) = Inl OutOfBounds"
  by (simp add: overfullBook_counts overfullBook_active overfullBook_match
        overfullBook_prices [OF overfullBook_active])

text \<open>
  C3. The rule "the traded quantity is the minimum of the two remaining quantities and
  both orders are reduced by it" fails in \<open>matchOrder\<close> on a book with an overfull side.
  After 1001 sell submissions at the double that follows 90 and one buy order of 50 at
  100, the selection of the sell slot itself leaves the arrays at slot 1000, so the
  quantity that is traded and subtracted need not belong to any sell order.
\<close>

theorem overfull_book_fill_undefined:
  "sint (count (sell (orderBooks (overfullBook (90 + 1 / 2 ^ 46) 50) 0))) = 1001 \<and>
   selectSell (sell (orderBooks (overfullBook (90 + 1 / 2 ^ 46) 50) 0)) = Inl OutOfBounds \<and>
   matchOrder 0 (overfullBook (90 + 1 / 2 ^ 46) 50) = Inl OutOfBounds"
  by (simp add: overfullBook_sint overfullBook_select overfullBook_match)

text \<open>
  C6. The rule "a published slot never gains quantity and is never reactivated" fails
  on a sequence that matches on an overfull side. The sequence of 1001 sell submissions
  at the double that follows 90, one buy order of 5 at 100, one matching cycle and one
  more sell submission leaves the arrays in the matching cycle, while slot 768 of the
  sell side is published: what the cycle writes outside the arrays, and so where the
  last submission stores its order, is not defined.
\<close>

theorem overfull_run_undefined:
  "published (sell (orderBooks (overfullBook (90 + 1 / 2 ^ 46) 5) 0)) 768 \<and>
   run (overfullOps (90 + 1 / 2 ^ 46) 5 @ [MatchOrder 0, AddOrder SELL 0 7 (Finite 95)])
       initMarket = Inl OutOfBounds"
proof -
  obtain evs where
    r: "run (overfullOps (90 + 1 / 2 ^ 46) 5) initMarket =
          Inr (overfullBook (90 + 1 / 2 ^ 46) 5, evs)"
    using overfullBook_run by blast
  have "run (overfullOps (90 + 1 / 2 ^ 46) 5 @ [MatchOrder 0, AddOrder SELL 0 7 (Finite 95)])
          initMarket = Inl OutOfBounds"
    unfolding run_append r by (simp add: overfullBook_match)
  then show ?thesis
    by (simp add: published_def in_bounds_def MAX_ORDERS_PER_SIDE_def overfullBook_counts)
qed

text \<open>
  C10. The rule "when every active sell order with positive quantity is priced at 1e9
  or above, no sell slot is selected and no trade executes" fails in \<open>matchOrder\<close> on a
  book with an overfull side. After 1001 sell submissions at the double that follows 1e9
  and one buy order of 5 at 100, no active sell slot has a price below 1e9, and the sell
  scan still runs to slot 1000 and reads outside the arrays: what it selects there, and
  whether a trade follows, is not defined.
\<close>

theorem overfull_high_asks_undefined:
  "active (sell (orderBooks (overfullBook (1000000000 + 1 / 2 ^ 23) 5) 0)) 0 \<and>
   \<not> (\<exists>j. active (sell (orderBooks (overfullBook (1000000000 + 1 / 2 ^ 23) 5) 0)) j \<and>
           \<not> dge (price (sell (orderBooks (overfullBook (1000000000 + 1 / 2 ^ 23) 5) 0)) j)
                  (Finite 1000000000)) \<and>
   uint (count (sell (orderBooks (overfullBook (1000000000 + 1 / 2 ^ 23) 5) 0))) = 1001 \<and>
   selectSell (sell (orderBooks (overfullBook (1000000000 + 1 / 2 ^ 23) 5) 0))
     = Inl OutOfBounds \<and>
   matchOrder 0 (overfullBook (1000000000 + 1 / 2 ^ 23) 5) = Inl OutOfBounds"
proof -
  have "dge (price (sell (orderBooks (overfullBook (1000000000 + 1 / 2 ^ 23) 5) 0)) j)
            (Finite 1000000000)"
    if "active (sell (orderBooks (overfullBook (1000000000 + 1 / 2 ^ 23) 5) 0)) j" for j
    unfolding overfullBook_prices [OF that] by (simp add: dge_def)
  then show ?thesis
    by (auto simp: overfullBook_counts overfullBook_active overfullBook_select
          overfullBook_match)
qed

end
